theory Spec2Isabelle
  imports Complex_Main "HOL-Library.Word" "HOL-Library.Sublist"
begin

section \<open>Sampling correction (profile\_proto\_builder.cc)\<close>

text \<open>
  \<^verbatim>\<open>CalculateSamplingRatio\<close> computes in C++ \<^verbatim>\<open>double\<close>. Two readings of the same
  function body are given. The first reads every operation exactly, over the reals, with one
  exception that HOL would hide: in HOL \<open>x / 0 = 0\<close>, whereas the C++ division of \<open>1\<close> by
  \<open>0.0\<close> yields IEEE infinity, so the division is written out with its zero-divisor case as
  a value of its own. This reading is the program's wherever no operation rounds, as for a
  zero metric, where every intermediate value is \<open>0\<close> or \<open>1\<close>; it says nothing reliable about
  inputs on which \<^verbatim>\<open>exp\<close> or a division rounds. The second reading, further below, keeps
  the floating-point operations abstract and holds for the machine's arithmetic.
\<close>

datatype ratio = Finite real | DivisionByZero

definition fdiv :: "real \<Rightarrow> real \<Rightarrow> ratio" where
  "fdiv a b = (if b = 0 then DivisionByZero else Finite (a / b))"

text \<open>The denominator \<^verbatim>\<open>1 - exp(-size / r)\<close> of the last line of the function.\<close>

definition sampling_denominator :: "int \<Rightarrow> int \<Rightarrow> int \<Rightarrow> real" where
  "sampling_denominator rate count metric_value =
     (let m = real_of_int metric_value;
          c = real_of_int count;
          r = real_of_int rate;
          size = m / c
      in 1 - exp (- size / r))"

definition CalculateSamplingRatio :: "int \<Rightarrow> int \<Rightarrow> int \<Rightarrow> ratio" where
  "CalculateSamplingRatio rate count metric_value =
     (if rate \<le> 1 then Finite 1
      else if count < 1 then Finite 1
      else fdiv 1 (sampling_denominator rate count metric_value))"

text \<open>
  C3. The claim is that for \<open>rate > 1\<close> and \<open>count \<ge> 1\<close> the denominator is never zero,
  the case of a zero metric included. At \<open>rate = 2\<close>, \<open>count = 1\<close>, \<open>metric_value = 0\<close>
  neither guard fires, the denominator is \<open>1 - e\<^sup>0 = 0\<close> and the function divides by it.
\<close>

theorem CalculateSamplingRatio_zero_metric:
  "sampling_denominator 2 1 0 = 0 \<and> CalculateSamplingRatio 2 1 0 = DivisionByZero"
  by (simp add: CalculateSamplingRatio_def sampling_denominator_def fdiv_def)

subsection \<open>The function over floating-point arithmetic\<close>

text \<open>
  The operations of \<^verbatim>\<open>double\<close> that the function uses, over a type \<open>'d\<close> of
  floating-point values: the conversion \<^verbatim>\<open>static_cast<double>\<close> of an \<^verbatim>\<open>int64\<close>, the
  constant \<open>1.0\<close>, unary minus, division, subtraction and the library's \<^verbatim>\<open>exp\<close>. Nothing
  is assumed of them, so whatever is proved holds for IEEE arithmetic with its rounding,
  infinities and NaN.
\<close>

record 'd double_arith =
  d_of_int64 :: "int \<Rightarrow> 'd"
  d_one :: "'d"
  d_neg :: "'d \<Rightarrow> 'd"
  d_div :: "'d \<Rightarrow> 'd \<Rightarrow> 'd"
  d_sub :: "'d \<Rightarrow> 'd \<Rightarrow> 'd"
  d_exp :: "'d \<Rightarrow> 'd"

definition CalculateSamplingRatio_double :: "'d double_arith \<Rightarrow> int \<Rightarrow> int \<Rightarrow> int \<Rightarrow> 'd" where
  "CalculateSamplingRatio_double fp rate count metric_value =
     (if rate \<le> 1 then d_one fp
      else if count < 1 then d_one fp
      else
        let m = d_of_int64 fp metric_value;
            c = d_of_int64 fp count;
            r = d_of_int64 fp rate;
            size = d_div fp m c
        in d_div fp (d_one fp) (d_sub fp (d_one fp) (d_exp fp (d_div fp (d_neg fp size) r))))"

text \<open>Exact arithmetic as one instance of the operations: the first reading above.\<close>

fun ratio_map :: "(real \<Rightarrow> real) \<Rightarrow> ratio \<Rightarrow> ratio" where
  "ratio_map f (Finite a) = Finite (f a)"
| "ratio_map f DivisionByZero = DivisionByZero"

fun ratio_div :: "ratio \<Rightarrow> ratio \<Rightarrow> ratio" where
  "ratio_div (Finite a) (Finite b) = fdiv a b"
| "ratio_div _ _ = DivisionByZero"

fun ratio_sub :: "ratio \<Rightarrow> ratio \<Rightarrow> ratio" where
  "ratio_sub (Finite a) (Finite b) = Finite (a - b)"
| "ratio_sub _ _ = DivisionByZero"

definition exact_arith :: "ratio double_arith" where
  "exact_arith =
     \<lparr>d_of_int64 = (\<lambda>i. Finite (real_of_int i)), d_one = Finite 1,
      d_neg = ratio_map uminus, d_div = ratio_div, d_sub = ratio_sub, d_exp = ratio_map exp\<rparr>"

lemma CalculateSamplingRatio_double_exact:
  "CalculateSamplingRatio_double exact_arith rate count metric_value =
     CalculateSamplingRatio rate count metric_value"
proof -
  have "1 \<le> count \<Longrightarrow> real_of_int count \<noteq> 0"
    by simp
  then show ?thesis
    by (simp add: CalculateSamplingRatio_double_def CalculateSamplingRatio_def
        sampling_denominator_def exact_arith_def fdiv_def Let_def)
qed

text \<open>
  C6. In the machine's arithmetic \<^verbatim>\<open>CalculateSamplingRatio\<close> returns exactly \<open>1.0\<close>
  whenever \<open>rate \<le> 1\<close> or \<open>count < 1\<close>, in particular for a rate of 0 or 1 whatever the
  count and the metric; otherwise it returns the floating-point value of
  \<open>1 / (1 - exp (- (metric / count) / rate))\<close>, each operation being the machine's.
\<close>

theorem CalculateSamplingRatio_double_cases:
  "(rate \<le> 1 \<or> count < 1 \<longrightarrow>
      CalculateSamplingRatio_double fp rate count metric_value = d_one fp) \<and>
   (rate \<in> {0, 1} \<longrightarrow>
      CalculateSamplingRatio_double fp rate count metric_value = d_one fp) \<and>
   (\<not> (rate \<le> 1 \<or> count < 1) \<longrightarrow>
      CalculateSamplingRatio_double fp rate count metric_value =
        d_div fp (d_one fp)
          (d_sub fp (d_one fp)
            (d_exp fp
              (d_div fp
                (d_neg fp (d_div fp (d_of_int64 fp metric_value) (d_of_int64 fp count)))
                (d_of_int64 fp rate)))))"
proof (intro conjI impI)
  assume "rate \<le> 1 \<or> count < 1"
  then show "CalculateSamplingRatio_double fp rate count metric_value = d_one fp"
    by (auto simp: CalculateSamplingRatio_double_def)
next
  assume "rate \<in> {0, 1}"
  then have "rate \<le> 1"
    by auto
  then show "CalculateSamplingRatio_double fp rate count metric_value = d_one fp"
    by (simp add: CalculateSamplingRatio_double_def)
next
  assume "\<not> (rate \<le> 1 \<or> count < 1)"
  then show "CalculateSamplingRatio_double fp rate count metric_value =
        d_div fp (d_one fp)
          (d_sub fp (d_one fp)
            (d_exp fp
              (d_div fp
                (d_neg fp (d_div fp (d_of_int64 fp metric_value) (d_of_int64 fp count)))
                (d_of_int64 fp rate))))"
    by (simp add: CalculateSamplingRatio_double_def Let_def)
qed

theorem CalculateSamplingRatio_double_cases_witness:
  "CalculateSamplingRatio_double exact_arith 0 5 7 = Finite 1 \<and>
   CalculateSamplingRatio_double exact_arith 1 5 7 = Finite 1 \<and>
   CalculateSamplingRatio_double exact_arith 10 0 7 = Finite 1 \<and>
   CalculateSamplingRatio_double exact_arith 10 2 7 =
     ratio_div (Finite 1) (ratio_sub (Finite 1)
       (ratio_map exp (ratio_div (ratio_map uminus (ratio_div (Finite 7) (Finite 2))) (Finite 10))))"
proof -
  have a: "CalculateSamplingRatio_double exact_arith 0 5 7 = Finite 1"
    using CalculateSamplingRatio_double_cases [of 0 5 exact_arith 7, THEN conjunct1]
    by (simp add: exact_arith_def)
  have b: "CalculateSamplingRatio_double exact_arith 1 5 7 = Finite 1"
    using CalculateSamplingRatio_double_cases [of 1 5 exact_arith 7, THEN conjunct2, THEN conjunct1]
    by (simp add: exact_arith_def)
  have c: "CalculateSamplingRatio_double exact_arith 10 0 7 = Finite 1"
    using CalculateSamplingRatio_double_cases [of 10 0 exact_arith 7, THEN conjunct1]
    by (simp add: exact_arith_def)
  have d: "CalculateSamplingRatio_double exact_arith 10 2 7 =
     ratio_div (Finite 1) (ratio_sub (Finite 1)
       (ratio_map exp (ratio_div (ratio_map uminus (ratio_div (Finite 7) (Finite 2))) (Finite 10))))"
    using CalculateSamplingRatio_double_cases [of 10 2 exact_arith 7, THEN conjunct2, THEN conjunct2]
    by (simp add: exact_arith_def)
  show ?thesis
    by (intro conjI a b c d)
qed

section \<open>Descriptor parser (stacktrace\_fixer.cc)\<close>

text \<open>
  The parser reads a character buffer through a cursor \<^verbatim>\<open>int *pos\<close> that every function
  advances in place. The model threads the cursor: each function takes the buffer and the
  position and returns the printed string together with the new position. The buffer is a
  \<open>string\<close> and \<^verbatim>\<open>buffer_size\<close> is its length, as at both call sites
  (\<^verbatim>\<open>PrettyPrintSignature\<close>, \<^verbatim>\<open>FixMethodParameters\<close>); positions are natural numbers,
  since both callers start at 0 and the parser only moves forward (apart from the one step
  back onto \<^verbatim>\<open>(\<close> in \<^verbatim>\<open>ParseFieldType\<close>). Every read \<open>buffer ! pos\<close> of the model
  is under the same bounds check as in the source.
\<close>

definition AtSignatureEnd :: "string \<Rightarrow> nat \<Rightarrow> bool" where
  "AtSignatureEnd buffer pos \<longleftrightarrow> pos \<ge> length buffer \<or> buffer ! pos = CHR '')''"

function find_semicolon :: "string \<Rightarrow> nat \<Rightarrow> nat option" where
  "find_semicolon buffer cur =
     (if cur < length buffer
      then (if buffer ! cur = CHR '';'' then Some cur else find_semicolon buffer (Suc cur))
      else None)"
  by pat_completeness auto
termination
  by (relation "measure (\<lambda>(buffer, cur). length buffer - cur)") auto

function ParseFieldType :: "string \<Rightarrow> nat \<Rightarrow> string \<times> nat"
  and ParseMethodTypeSignatureInternal_loop :: "string \<Rightarrow> nat \<Rightarrow> string \<Rightarrow> string \<times> nat"
  and ParseMethodTypeSignatureInternal :: "string \<Rightarrow> nat \<Rightarrow> string \<times> nat"
  and ParseMethodTypeSignatureWithReturn :: "string \<Rightarrow> nat \<Rightarrow> string \<times> nat"
where
  "ParseFieldType buffer pos =
     (if pos \<ge> length buffer then (''<error: end of buffer reached>'', pos)
      else
        let type = buffer ! pos; pos1 = pos + 1 in
        if type = CHR ''B'' then (''byte'', pos1)
        else if type = CHR ''C'' then (''char'', pos1)
        else if type = CHR ''D'' then (''double'', pos1)
        else if type = CHR ''F'' then (''float'', pos1)
        else if type = CHR ''I'' then (''int'', pos1)
        else if type = CHR ''J'' then (''long'', pos1)
        else if type = CHR ''S'' then (''short'', pos1)
        else if type = CHR ''Z'' then (''boolean'', pos1)
        else if type = CHR ''V'' then (''void'', pos1)
        else if type = CHR ''L'' then
          (case find_semicolon buffer pos1 of
             Some cur \<Rightarrow> (take (cur - pos1) (drop pos1 buffer), pos1 + (cur - pos1) + 1)
           | None \<Rightarrow> (''<error: end of string reached>'', length buffer))
        else if type = CHR ''['' then
          (case ParseFieldType buffer pos1 of (s, pos2) \<Rightarrow> (s @ ''[]'', pos2))
        else if type = CHR ''('' then
          ParseMethodTypeSignatureWithReturn buffer (pos1 - 1)
        else (''<error: unknown type>'', pos1))"
| "ParseMethodTypeSignatureInternal_loop buffer pos buf =
     (if \<not> AtSignatureEnd buffer pos then
        (case ParseFieldType buffer pos of
           (s, pos1) \<Rightarrow>
             ParseMethodTypeSignatureInternal_loop buffer pos1
               (if \<not> AtSignatureEnd buffer pos1 then (buf @ s) @ '', '' else buf @ s))
      else (buf, pos))"
| "ParseMethodTypeSignatureInternal buffer pos =
     (if pos \<ge> length buffer \<or> buffer ! pos \<noteq> CHR ''('' then ('''', pos)
      else
        (case ParseMethodTypeSignatureInternal_loop buffer (pos + 1) ''('' of
           (buf, pos1) \<Rightarrow>
             if pos1 < length buffer then (buf @ '')'', pos1 + 1)
             else (buf @ '' <Method Signature Error: no '' @ [CHR 0x27] @ '')'' @ [CHR 0x27] @ ''>'', pos1)))"
| "ParseMethodTypeSignatureWithReturn buffer pos =
     (case ParseMethodTypeSignatureInternal buffer pos of
        (argument_string, pos1) \<Rightarrow>
          if argument_string = [] then ('''', pos1)
          else if last argument_string \<noteq> CHR '')'' then (argument_string, pos1)
          else (case ParseFieldType buffer pos1 of
                  (return_string, pos2) \<Rightarrow> (return_string @ '' '' @ argument_string, pos2)))"
  by pat_completeness auto


declare find_semicolon.simps [simp del]

lemma find_semicolon_ge:
  "find_semicolon buffer cur = Some i \<Longrightarrow> cur \<le> i \<and> i < length buffer \<and> buffer ! i = CHR '';''"
proof (induction buffer cur rule: find_semicolon.induct)
  case (1 buffer cur)
  show ?case
  proof (cases "cur < length buffer")
    case False
    with "1.prems" show ?thesis
      by (simp add: find_semicolon.simps [of buffer cur])
  next
    case True
    show ?thesis
    proof (cases "buffer ! cur = CHR '';''")
      case semi: True
      with True "1.prems" show ?thesis
        by (simp add: find_semicolon.simps [of buffer cur])
    next
      case False
      with True "1.prems" have "find_semicolon buffer (Suc cur) = Some i"
        by (simp add: find_semicolon.simps [of buffer cur])
      with "1.IH" [OF True False] show ?thesis
        by simp
    qed
  qed
qed

lemma parse_advances_dom:
  "ParseFieldType_ParseMethodTypeSignatureInternal_loop_ParseMethodTypeSignatureInternal_ParseMethodTypeSignatureWithReturn_dom (Inl (Inl (buffer, pos)))
     \<Longrightarrow> pos \<le> snd (ParseFieldType buffer pos) \<and> (pos < length buffer \<longrightarrow> pos < snd (ParseFieldType buffer pos))"
  "ParseFieldType_ParseMethodTypeSignatureInternal_loop_ParseMethodTypeSignatureInternal_ParseMethodTypeSignatureWithReturn_dom (Inl (Inr (buffer, pos, buf)))
     \<Longrightarrow> pos \<le> snd (ParseMethodTypeSignatureInternal_loop buffer pos buf)"
  "ParseFieldType_ParseMethodTypeSignatureInternal_loop_ParseMethodTypeSignatureInternal_ParseMethodTypeSignatureWithReturn_dom (Inr (Inl (buffer, pos)))
     \<Longrightarrow> pos < length buffer \<and> buffer ! pos = CHR ''('' \<longrightarrow> pos < snd (ParseMethodTypeSignatureInternal buffer pos)"
  "ParseFieldType_ParseMethodTypeSignatureInternal_loop_ParseMethodTypeSignatureInternal_ParseMethodTypeSignatureWithReturn_dom (Inr (Inr (buffer, pos)))
     \<Longrightarrow> pos < length buffer \<and> buffer ! pos = CHR ''('' \<longrightarrow> pos < snd (ParseMethodTypeSignatureWithReturn buffer pos)"
proof (induct rule: ParseFieldType_ParseMethodTypeSignatureInternal_loop_ParseMethodTypeSignatureInternal_ParseMethodTypeSignatureWithReturn.pinduct)
  case (1 buffer pos)
  note unfold = ParseFieldType.psimps [OF "1.hyps"(1)]
  show ?case
  proof (cases "pos < length buffer")
    case False
    then show ?thesis by (simp add: unfold)
  next
    case lt: True
    have "pos < snd (ParseFieldType buffer pos)"
    proof (cases "buffer ! pos = CHR ''L''")
      case True
      then show ?thesis using lt
        by (auto simp: unfold Let_def split: option.splits dest: find_semicolon_ge)
    next
      case notL: False
      show ?thesis
      proof (cases "buffer ! pos = CHR ''[''")
        case True
        with lt "1.hyps"(2) [OF _ refl refl]
        have "Suc pos \<le> snd (ParseFieldType buffer (Suc pos))"
          by simp
        then show ?thesis using lt True
          by (auto simp: unfold Let_def split: prod.splits)
      next
        case notA: False
        show ?thesis
        proof (cases "buffer ! pos = CHR ''(''")
          case True
          with lt "1.hyps"(3) [OF _ refl refl]
          have "pos < snd (ParseMethodTypeSignatureWithReturn buffer pos)"
            by simp
          then show ?thesis using lt True
            by (simp add: unfold Let_def)
        next
          case False
          then show ?thesis using lt notL notA
            by (simp add: unfold Let_def)
        qed
      qed
    qed
    then show ?thesis by simp
  qed
next
  case (2 buffer pos buf)
  note unfold = ParseMethodTypeSignatureInternal_loop.psimps [OF "2.hyps"(1)]
  show ?case
  proof (cases "AtSignatureEnd buffer pos")
    case True
    then show ?thesis by (simp add: unfold)
  next
    case False
    obtain s pos1 where r: "ParseFieldType buffer pos = (s, pos1)"
      by (cases "ParseFieldType buffer pos")
    from False have "pos < length buffer"
      by (simp add: AtSignatureEnd_def)
    with "2.hyps"(2) [OF False] r have "pos < pos1"
      by simp
    moreover from "2.hyps"(3) [OF False r [symmetric]]
    have "pos1 \<le> snd (ParseMethodTypeSignatureInternal_loop buffer pos1
        (if \<not> AtSignatureEnd buffer pos1 then (buf @ s) @ '', '' else buf @ s))" .
    ultimately show ?thesis using False r
      by (simp add: unfold)
  qed
next
  case (3 buffer pos)
  note unfold = ParseMethodTypeSignatureInternal.psimps [OF "3.hyps"(1)]
  show ?case
  proof
    assume g: "pos < length buffer \<and> buffer ! pos = CHR ''(''"
    obtain buf pos1 where r: "ParseMethodTypeSignatureInternal_loop buffer (pos + 1) ''('' = (buf, pos1)"
      by (cases "ParseMethodTypeSignatureInternal_loop buffer (pos + 1) ''(''")
    from g "3.hyps"(2) r have "pos + 1 \<le> pos1"
      by simp
    with g r show "pos < snd (ParseMethodTypeSignatureInternal buffer pos)"
      by (simp add: unfold)
  qed
next
  case (4 buffer pos)
  note unfold = ParseMethodTypeSignatureWithReturn.psimps [OF "4.hyps"(1)]
  show ?case
  proof
    assume g: "pos < length buffer \<and> buffer ! pos = CHR ''(''"
    obtain x y where r: "ParseMethodTypeSignatureInternal buffer pos = (x, y)"
      by (cases "ParseMethodTypeSignatureInternal buffer pos")
    from g "4.hyps"(2) r have py: "pos < y"
      by simp
    show "pos < snd (ParseMethodTypeSignatureWithReturn buffer pos)"
    proof (cases "x \<noteq> [] \<and> last x = CHR '')''")
      case True
      with "4.hyps"(3) [OF r [symmetric]] have "y \<le> snd (ParseFieldType buffer y)"
        by simp
      with py have "pos < snd (ParseFieldType buffer y)"
        by simp
      with True r show ?thesis
        by (simp add: unfold split_beta)
    next
      case False
      with py r show ?thesis
        by (auto simp: unfold)
    qed
  qed
qed

lemma Internal_nonempty_dom:
  assumes "ParseFieldType_ParseMethodTypeSignatureInternal_loop_ParseMethodTypeSignatureInternal_ParseMethodTypeSignatureWithReturn_dom (Inr (Inl (buffer, pos)))"
    and "ParseMethodTypeSignatureInternal buffer pos = (x, y)" and "x \<noteq> []"
  shows "pos < length buffer \<and> buffer ! pos = CHR ''(''"
  using assms(2,3)
  by (auto simp: ParseMethodTypeSignatureInternal.psimps [OF assms(1)] split: if_splits)

lemma loop_call_decreases:
  assumes "\<not> AtSignatureEnd buffer pos" and "(x, y) = ParseFieldType buffer pos"
    and "ParseFieldType_ParseMethodTypeSignatureInternal_loop_ParseMethodTypeSignatureInternal_ParseMethodTypeSignatureWithReturn_dom (Inl (Inl (buffer, pos)))"
  shows "length buffer - y < length buffer - pos"
proof -
  from assms(1) have lt: "pos < length buffer"
    by (simp add: AtSignatureEnd_def)
  with parse_advances_dom(1) [OF assms(3)] assms(2) have "pos < y"
    by (metis snd_conv)
  with lt show ?thesis by simp
qed

lemma return_call_decreases:
  assumes "(x, y) = ParseMethodTypeSignatureInternal buffer pos" and "x \<noteq> []"
    and "ParseFieldType_ParseMethodTypeSignatureInternal_loop_ParseMethodTypeSignatureInternal_ParseMethodTypeSignatureWithReturn_dom (Inr (Inl (buffer, pos)))"
  shows "length buffer - y < length buffer - pos"
proof -
  from Internal_nonempty_dom [OF assms(3) assms(1) [symmetric] assms(2)]
  have g: "pos < length buffer \<and> buffer ! pos = CHR ''(''" .
  with parse_advances_dom(3) [OF assms(3)] assms(1) have "pos < y"
    by (metis snd_conv)
  moreover from g have "pos < length buffer" ..
  ultimately show ?thesis by arith
qed

termination ParseFieldType
  apply (relation "measures
     [\<lambda>x. case x of
        Inl (Inl (buffer, pos)) \<Rightarrow> length buffer - pos
      | Inl (Inr (buffer, pos, buf)) \<Rightarrow> length buffer - pos
      | Inr (Inl (buffer, pos)) \<Rightarrow> length buffer - pos
      | Inr (Inr (buffer, pos)) \<Rightarrow> length buffer - pos,
      \<lambda>x. case x of
        Inl (Inl _) \<Rightarrow> 2
      | Inl (Inr _) \<Rightarrow> 3
      | Inr (Inl _) \<Rightarrow> 0
      | Inr (Inr _) \<Rightarrow> (1::nat)]")
  apply simp_all
  subgoal for buffer pos x y
    by (rule loop_call_decreases)
  subgoal for buffer pos
    by arith
  subgoal for buffer pos x y
    by (rule return_call_decreases)
  done

declare ParseFieldType.simps [simp del] ParseMethodTypeSignatureInternal_loop.simps [simp del]
  ParseMethodTypeSignatureInternal.simps [simp del] ParseMethodTypeSignatureWithReturn.simps [simp del]

definition ParseMethodTypeSignature :: "string \<Rightarrow> nat \<Rightarrow> string \<times> nat" where
  "ParseMethodTypeSignature buffer pos = ParseMethodTypeSignatureInternal buffer pos"

definition FixPath :: "string \<Rightarrow> string" where
  "FixPath s = map (\<lambda>c. if c = CHR ''/'' then CHR ''.'' else c) s"

definition PrettyPrintSignature :: "string \<Rightarrow> string" where
  "PrettyPrintSignature s = FixPath (fst (ParseFieldType s 0))"

definition FixMethodParameters :: "string \<Rightarrow> string" where
  "FixMethodParameters signature =
     (if signature = [] \<or> signature ! 0 \<noteq> CHR ''('' then signature
      else let fixed = FixPath signature
           in fst (ParseMethodTypeSignature fixed 0))"

lemma find_semicolon_None: "find_semicolon buffer cur = None \<longleftrightarrow> CHR '';'' \<notin> set (drop cur buffer)"
proof (induction buffer cur rule: find_semicolon.induct)
  case (1 buffer cur)
  show ?case
  proof (cases "cur < length buffer")
    case True
    then have "drop cur buffer = buffer ! cur # drop (Suc cur) buffer"
      by (simp add: Cons_nth_drop_Suc)
    with True 1 show ?thesis
      by (simp add: find_semicolon.simps [of buffer cur])
  next
    case False
    then show ?thesis
      by (simp add: find_semicolon.simps [of buffer cur])
  qed
qed

lemma loop_exit:
  "AtSignatureEnd buffer (snd (ParseMethodTypeSignatureInternal_loop buffer pos buf))"
proof (induct buffer pos buf rule:
    ParseFieldType_ParseMethodTypeSignatureInternal_loop_ParseMethodTypeSignatureInternal_ParseMethodTypeSignatureWithReturn.induct(2)
      [where P = "\<lambda>_ _. True" and R = "\<lambda>_ _. True" and S = "\<lambda>_ _. True"])
  case (2 buffer pos buf)
  then show ?case
    by (simp add: ParseMethodTypeSignatureInternal_loop.simps [of buffer pos buf] split: prod.splits)
qed simp_all

lemma loop_prefix:
  "prefix buf (fst (ParseMethodTypeSignatureInternal_loop buffer pos buf))"
proof (induct buffer pos buf rule:
    ParseFieldType_ParseMethodTypeSignatureInternal_loop_ParseMethodTypeSignatureInternal_ParseMethodTypeSignatureWithReturn.induct(2)
      [where P = "\<lambda>_ _. True" and R = "\<lambda>_ _. True" and S = "\<lambda>_ _. True"])
  case (2 buffer pos buf)
  show ?case
  proof (cases "AtSignatureEnd buffer pos")
    case True
    then show ?thesis
      by (simp add: ParseMethodTypeSignatureInternal_loop.simps [of buffer pos buf])
  next
    case False
    obtain s pos1 where r: "ParseFieldType buffer pos = (s, pos1)"
      by (cases "ParseFieldType buffer pos")
    let ?buf1 = "if \<not> AtSignatureEnd buffer pos1 then (buf @ s) @ '', '' else buf @ s"
    from 2(2) [OF False r [symmetric]]
    have "prefix ?buf1 (fst (ParseMethodTypeSignatureInternal_loop buffer pos1 ?buf1))" .
    moreover have "prefix buf ?buf1"
      by simp
    ultimately have "prefix buf (fst (ParseMethodTypeSignatureInternal_loop buffer pos1 ?buf1))"
      by (rule prefix_order.trans [rotated])
    with False r show ?thesis
      by (simp add: ParseMethodTypeSignatureInternal_loop.simps [of buffer pos buf])
  qed
qed simp_all


lemma find_semicolon_Some_iff:
  "find_semicolon buffer cur = Some i \<Longrightarrow> cur \<le> i \<and> i < length buffer"
  using find_semicolon_ge by blast

lemma ParseFieldType_end:
  "length buffer \<le> pos \<Longrightarrow> ParseFieldType buffer pos = (''<error: end of buffer reached>'', pos)"
  by (simp add: ParseFieldType.simps [of buffer pos])

lemma ParseFieldType_array:
  "pos < length buffer \<Longrightarrow> buffer ! pos = CHR ''['' \<Longrightarrow>
   ParseFieldType buffer pos =
     (fst (ParseFieldType buffer (Suc pos)) @ ''[]'', snd (ParseFieldType buffer (Suc pos)))"
  by (simp add: ParseFieldType.simps [of buffer pos] Let_def split: prod.splits)

lemma ParseFieldType_method:
  "pos < length buffer \<Longrightarrow> buffer ! pos = CHR ''('' \<Longrightarrow>
   ParseFieldType buffer pos = ParseMethodTypeSignatureWithReturn buffer pos"
  by (simp add: ParseFieldType.simps [of buffer pos] Let_def)

lemma ParseFieldType_class:
  "pos < length buffer \<Longrightarrow> buffer ! pos = CHR ''L'' \<Longrightarrow>
   ParseFieldType buffer pos =
     (case find_semicolon buffer (Suc pos) of
        Some cur \<Rightarrow> (take (cur - Suc pos) (drop (Suc pos) buffer), Suc pos + (cur - Suc pos) + 1)
      | None \<Rightarrow> (''<error: end of string reached>'', length buffer))"
  by (simp add: ParseFieldType.simps [of buffer pos] Let_def)

lemma ParseFieldType_other:
  "pos < length buffer \<Longrightarrow> buffer ! pos \<noteq> CHR ''L'' \<Longrightarrow> buffer ! pos \<noteq> CHR ''['' \<Longrightarrow>
   buffer ! pos \<noteq> CHR ''('' \<Longrightarrow> snd (ParseFieldType buffer pos) = Suc pos"
  by (simp add: ParseFieldType.simps [of buffer pos] Let_def)

lemma loop_done:
  "AtSignatureEnd buffer pos \<Longrightarrow> ParseMethodTypeSignatureInternal_loop buffer pos buf = (buf, pos)"
  by (simp add: ParseMethodTypeSignatureInternal_loop.simps [of buffer pos buf])

lemma loop_step:
  "\<not> AtSignatureEnd buffer pos \<Longrightarrow> ParseFieldType buffer pos = (s, pos1) \<Longrightarrow>
   ParseMethodTypeSignatureInternal_loop buffer pos buf =
     ParseMethodTypeSignatureInternal_loop buffer pos1
       (if \<not> AtSignatureEnd buffer pos1 then (buf @ s) @ '', '' else buf @ s)"
  by (simp add: ParseMethodTypeSignatureInternal_loop.simps [of buffer pos buf])

lemma Internal_no_paren:
  "length buffer \<le> pos \<or> buffer ! pos \<noteq> CHR ''('' \<Longrightarrow>
   ParseMethodTypeSignatureInternal buffer pos = ([], pos)"
  by (simp add: ParseMethodTypeSignatureInternal.simps [of buffer pos])

lemma Internal_paren:
  "pos < length buffer \<Longrightarrow> buffer ! pos = CHR ''('' \<Longrightarrow>
   ParseMethodTypeSignatureInternal_loop buffer (Suc pos) ''('' = (buf, pos1) \<Longrightarrow>
   ParseMethodTypeSignatureInternal buffer pos =
     (if pos1 < length buffer then (buf @ '')'', pos1 + 1)
      else (buf @ '' <Method Signature Error: no '' @ [CHR 0x27] @ '')'' @ [CHR 0x27] @ ''>'', pos1))"
  by (simp add: ParseMethodTypeSignatureInternal.simps [of buffer pos])

lemma WithReturn_unfold:
  "ParseMethodTypeSignatureInternal buffer pos = (x, y) \<Longrightarrow>
   ParseMethodTypeSignatureWithReturn buffer pos =
     (if x = [] then ([], y)
      else if last x \<noteq> CHR '')'' then (x, y)
      else (fst (ParseFieldType buffer y) @ '' '' @ x, snd (ParseFieldType buffer y)))"
  by (simp add: ParseMethodTypeSignatureWithReturn.simps [of buffer pos] split: prod.splits)

lemma cursor_bounds:
  "pos \<le> snd (ParseFieldType buffer pos) \<and>
     (pos \<le> length buffer \<longrightarrow> snd (ParseFieldType buffer pos) \<le> length buffer)"
  "pos \<le> snd (ParseMethodTypeSignatureInternal_loop buffer pos buf) \<and>
     (pos \<le> length buffer \<longrightarrow> snd (ParseMethodTypeSignatureInternal_loop buffer pos buf) \<le> length buffer)"
  "pos \<le> snd (ParseMethodTypeSignatureInternal buffer pos) \<and>
     (pos \<le> length buffer \<longrightarrow> snd (ParseMethodTypeSignatureInternal buffer pos) \<le> length buffer)"
  "pos \<le> snd (ParseMethodTypeSignatureWithReturn buffer pos) \<and>
     (pos \<le> length buffer \<longrightarrow> snd (ParseMethodTypeSignatureWithReturn buffer pos) \<le> length buffer)"
proof (induct buffer pos and buffer pos buf and buffer pos and buffer pos rule:
    ParseFieldType_ParseMethodTypeSignatureInternal_loop_ParseMethodTypeSignatureInternal_ParseMethodTypeSignatureWithReturn.induct)
  case (1 buffer pos)
  show ?case
  proof (cases "pos < length buffer")
    case False
    then show ?thesis
      by (simp add: ParseFieldType_end)
  next
    case lt: True
    show ?thesis
    proof (cases "buffer ! pos = CHR ''L''")
      case True
      show ?thesis
      proof (cases "find_semicolon buffer (Suc pos)")
        case None
        with lt True show ?thesis
          by (simp add: ParseFieldType_class)
      next
        case (Some cur)
        then have "Suc pos \<le> cur \<and> cur < length buffer"
          by (rule find_semicolon_Some_iff)
        with lt True Some show ?thesis
          by (simp add: ParseFieldType_class)
      qed
    next
      case notL: False
      show ?thesis
      proof (cases "buffer ! pos = CHR ''[''")
        case True
        with lt "1"(1) [OF _ refl refl]
        have "Suc pos \<le> snd (ParseFieldType buffer (Suc pos)) \<and>
              snd (ParseFieldType buffer (Suc pos)) \<le> length buffer"
          by simp
        then show ?thesis using lt True
          by (simp add: ParseFieldType_array)
      next
        case notA: False
        show ?thesis
        proof (cases "buffer ! pos = CHR ''(''")
          case True
          with lt "1"(2) [OF _ refl refl]
          have "pos \<le> snd (ParseMethodTypeSignatureWithReturn buffer pos) \<and>
              snd (ParseMethodTypeSignatureWithReturn buffer pos) \<le> length buffer"
            by simp
          then show ?thesis using lt True
            by (simp add: ParseFieldType_method)
        next
          case False
          with lt notL notA have "snd (ParseFieldType buffer pos) = Suc pos"
            by (simp add: ParseFieldType_other)
          with lt show ?thesis by simp
        qed
      qed
    qed
  qed
next
  case (2 buffer pos buf)
  show ?case
  proof (cases "AtSignatureEnd buffer pos")
    case True
    then show ?thesis by (simp add: loop_done)
  next
    case False
    obtain s pos1 where r: "ParseFieldType buffer pos = (s, pos1)"
      by (cases "ParseFieldType buffer pos")
    from False have "pos < length buffer"
      by (simp add: AtSignatureEnd_def)
    with "2"(1) [OF False] r have b: "pos \<le> pos1" "pos1 \<le> length buffer"
      by simp_all
    let ?buf1 = "if \<not> AtSignatureEnd buffer pos1 then (buf @ s) @ '', '' else buf @ s"
    from "2"(2) [OF False r [symmetric]] b
    have "pos1 \<le> snd (ParseMethodTypeSignatureInternal_loop buffer pos1 ?buf1)"
      and "snd (ParseMethodTypeSignatureInternal_loop buffer pos1 ?buf1) \<le> length buffer"
      by simp_all
    moreover have "ParseMethodTypeSignatureInternal_loop buffer pos buf =
        ParseMethodTypeSignatureInternal_loop buffer pos1 ?buf1"
      using False r by (rule loop_step)
    ultimately show ?thesis using b by simp
  qed
next
  case (3 buffer pos)
  show ?case
  proof (cases "length buffer \<le> pos \<or> buffer ! pos \<noteq> CHR ''(''")
    case True
    then have "ParseMethodTypeSignatureInternal buffer pos = ([], pos)"
      by (rule Internal_no_paren)
    then show ?thesis by simp
  next
    case False
    then have g: "pos < length buffer" "buffer ! pos = CHR ''(''"
      by simp_all
    obtain buf pos1 where r: "ParseMethodTypeSignatureInternal_loop buffer (Suc pos) ''('' = (buf, pos1)"
      by (cases "ParseMethodTypeSignatureInternal_loop buffer (Suc pos) ''(''")
    from "3" [OF False] g r have "Suc pos \<le> pos1" "pos1 \<le> length buffer"
      by simp_all
    then show ?thesis
      by (simp add: Internal_paren [OF g r])
  qed
next
  case (4 buffer pos)
  obtain x y where r: "ParseMethodTypeSignatureInternal buffer pos = (x, y)"
    by (cases "ParseMethodTypeSignatureInternal buffer pos")
  from "4"(1) r have py: "pos \<le> y" and yl: "pos \<le> length buffer \<longrightarrow> y \<le> length buffer"
    by simp_all
  show ?case
  proof (cases "x \<noteq> [] \<and> last x = CHR '')''")
    case True
    with "4"(2) [OF r [symmetric]] 
    have "y \<le> snd (ParseFieldType buffer y) \<and>
       (y \<le> length buffer \<longrightarrow> snd (ParseFieldType buffer y) \<le> length buffer)"
      by simp
    with py yl True show ?thesis
      by (simp add: WithReturn_unfold [OF r])
  next
    case False
    with py yl show ?thesis
      by (auto simp: WithReturn_unfold [OF r])
  qed
qed

lemma no_paren_loop_reaches_end:
  assumes "CHR '')'' \<notin> set (drop pos buffer)"
  shows "length buffer \<le> snd (ParseMethodTypeSignatureInternal_loop buffer pos buf)"
proof (rule ccontr)
  let ?p = "snd (ParseMethodTypeSignatureInternal_loop buffer pos buf)"
  assume "\<not> length buffer \<le> ?p"
  then have lt: "?p < length buffer" by simp
  with loop_exit [of buffer pos buf] have "buffer ! ?p = CHR '')''"
    by (simp add: AtSignatureEnd_def)
  moreover have "pos \<le> ?p"
    using cursor_bounds(2) [of pos buffer buf] by simp
  ultimately have "CHR '')'' \<in> set (drop pos buffer)"
    using lt by (auto simp: in_set_conv_nth intro!: exI [of _ "?p - pos"])
  with assms show False by simp
qed

lemma ParseFieldType_unknown:
  assumes "pos < length buffer" and "buffer ! pos \<notin> set ''BCDFIJSZVL[(''"
  shows "ParseFieldType buffer pos = (''<error: unknown type>'', pos + 1)"
  using assms by (simp add: ParseFieldType.simps [of buffer pos] Let_def)

lemma ParseFieldType_unterminated:
  assumes "pos < length buffer" and "buffer ! pos = CHR ''L''"
    and "CHR '';'' \<notin> set (drop (pos + 1) buffer)"
  shows "ParseFieldType buffer pos = (''<error: end of string reached>'', length buffer)"
proof -
  from assms(3) have "find_semicolon buffer (Suc pos) = None"
    by (simp add: find_semicolon_None)
  with assms(1,2) show ?thesis
    by (simp add: ParseFieldType_class)
qed

lemma Internal_result:
  assumes "pos < length buffer" and "buffer ! pos = CHR ''(''"
    and "ParseMethodTypeSignatureInternal_loop buffer (pos + 1) ''('' = (buf, pos1)"
  shows "prefix ''('' buf \<and>
     (if pos1 < length buffer
      then buffer ! pos1 = CHR '')'' \<and>
           ParseMethodTypeSignatureInternal buffer pos = (buf @ '')'', pos1 + 1)
      else ParseMethodTypeSignatureInternal buffer pos =
           (buf @ '' <Method Signature Error: no '' @ [CHR 0x27] @ '')'' @ [CHR 0x27] @ ''>'',
            pos1))"
proof -
  from assms(3) have r: "ParseMethodTypeSignatureInternal_loop buffer (Suc pos) ''('' = (buf, pos1)"
    by simp
  have "prefix ''('' buf"
    using loop_prefix [of "''(''" buffer "Suc pos"] r by simp
  moreover have "pos1 < length buffer \<Longrightarrow> buffer ! pos1 = CHR '')''"
    using loop_exit [of buffer "Suc pos" "''(''"] r by (simp add: AtSignatureEnd_def)
  ultimately show ?thesis
    by (simp add: Internal_paren [OF assms(1,2) r])
qed

lemma Internal_no_closing:
  assumes "pos < length buffer" and "buffer ! pos = CHR ''(''"
    and "CHR '')'' \<notin> set (drop pos buffer)"
  shows "\<exists>args. ParseMethodTypeSignatureInternal buffer pos =
      (''('' @ args @ '' <Method Signature Error: no '' @ [CHR 0x27] @ '')'' @ [CHR 0x27] @ ''>'',
       length buffer)"
proof -
  obtain buf pos1 where r: "ParseMethodTypeSignatureInternal_loop buffer (Suc pos) ''('' = (buf, pos1)"
    by (cases "ParseMethodTypeSignatureInternal_loop buffer (Suc pos) ''(''")
  from assms(3) have "CHR '')'' \<notin> set (drop (Suc pos) buffer)"
    using set_drop_subset_set_drop [of pos "Suc pos" buffer] by auto
  then have "length buffer \<le> pos1"
    using no_paren_loop_reaches_end [of "Suc pos" buffer "''(''"] r by simp
  moreover have "pos1 \<le> length buffer"
    using cursor_bounds(2) [of "Suc pos" buffer "''(''"] r assms(1) by simp
  ultimately have p: "pos1 = length buffer"
    by simp
  have "prefix ''('' buf"
    using loop_prefix [of "''(''" buffer "Suc pos"] r by simp
  then obtain args where "buf = ''('' @ args"
    by (auto simp: prefix_def)
  with p show ?thesis
    by (simp add: Internal_paren [OF assms(1,2) r])
qed

text \<open>
  C4 (as stated). The claim says that \<^verbatim>\<open>FixMethodParameters\<close> turns
  \<^verbatim>\<open>(I[Ljava/lang/String;)V\<close> into \<^verbatim>\<open>void (int, java.lang.String[])\<close>. It does not:
  \<^verbatim>\<open>FixMethodParameters\<close> calls \<^verbatim>\<open>ParseMethodTypeSignature\<close>, which prints the
  argument list only.
\<close>

theorem FixMethodParameters_no_return_type:
  "FixMethodParameters ''(I[Ljava/lang/String;)V'' \<noteq> ''void (int, java.lang.String[])''"
  by code_simp

text \<open>
  C4 (amended). \<^verbatim>\<open>FixMethodParameters\<close> maps \<^verbatim>\<open>(I[Ljava/lang/String;)V\<close> to
  \<^verbatim>\<open>(int, java.lang.String[])\<close>; the form with the return type,
  \<^verbatim>\<open>void (int, java.lang.String[])\<close>, is what \<^verbatim>\<open>ParseMethodTypeSignatureWithReturn\<close>
  yields on the slash-to-dot normalised descriptor.
\<close>

theorem FixMethodParameters_example:
  "FixMethodParameters ''(I[Ljava/lang/String;)V'' = ''(int, java.lang.String[])'' \<and>
   fst (ParseMethodTypeSignatureWithReturn (FixPath ''(I[Ljava/lang/String;)V'') 0) =
     ''void (int, java.lang.String[])''"
  by code_simp

text \<open>
  C5. The descriptor parser is total (its termination is proved above) and reports errors in
  its output: a position at or past the end of the buffer and an unrecognised tag each give
  a fixed placeholder; an \<^verbatim>\<open>L\<close> type without a terminating \<^verbatim>\<open>;\<close> gives a placeholder and
  moves the position to the end of the buffer; a method descriptor gives the arguments
  parsed by the loop followed by \<^verbatim>\<open>)\<close> when the loop stopped at a \<^verbatim>\<open>)\<close>, and followed by
  the diagnostic suffix when it stopped at the end of the buffer, which is what happens
  whenever no \<^verbatim>\<open>)\<close> occurs from the position on. A cursor that starts inside the buffer
  never leaves it.
\<close>

theorem descriptor_parser_errors:
  "(length buffer \<le> pos \<longrightarrow>
      ParseFieldType buffer pos = (''<error: end of buffer reached>'', pos)) \<and>
   (pos < length buffer \<and> buffer ! pos \<notin> set ''BCDFIJSZVL[('' \<longrightarrow>
      ParseFieldType buffer pos = (''<error: unknown type>'', pos + 1)) \<and>
   (pos < length buffer \<and> buffer ! pos = CHR ''L'' \<and> CHR '';'' \<notin> set (drop (pos + 1) buffer) \<longrightarrow>
      ParseFieldType buffer pos = (''<error: end of string reached>'', length buffer)) \<and>
   (pos < length buffer \<and> buffer ! pos = CHR ''('' \<and>
    ParseMethodTypeSignatureInternal_loop buffer (pos + 1) ''('' = (buf, pos1) \<longrightarrow>
      prefix ''('' buf \<and>
      (if pos1 < length buffer
       then buffer ! pos1 = CHR '')'' \<and>
            ParseMethodTypeSignatureInternal buffer pos = (buf @ '')'', pos1 + 1)
       else ParseMethodTypeSignatureInternal buffer pos =
            (buf @ '' <Method Signature Error: no '' @ [CHR 0x27] @ '')'' @ [CHR 0x27] @ ''>'',
             pos1))) \<and>
   (pos < length buffer \<and> buffer ! pos = CHR ''('' \<and> CHR '')'' \<notin> set (drop pos buffer) \<longrightarrow>
      (\<exists>args. ParseMethodTypeSignatureInternal buffer pos =
         (''('' @ args @ '' <Method Signature Error: no '' @ [CHR 0x27] @ '')'' @ [CHR 0x27] @ ''>'',
          length buffer))) \<and>
   (pos \<le> length buffer \<longrightarrow>
      snd (ParseFieldType buffer pos) \<le> length buffer \<and>
      snd (ParseMethodTypeSignatureInternal buffer pos) \<le> length buffer \<and>
      snd (ParseMethodTypeSignatureWithReturn buffer pos) \<le> length buffer)"
proof (intro conjI impI)
  assume "length buffer \<le> pos"
  then show "ParseFieldType buffer pos = (''<error: end of buffer reached>'', pos)"
    by (rule ParseFieldType_end)
next
  assume "pos < length buffer \<and> buffer ! pos \<notin> set ''BCDFIJSZVL[(''"
  then show "ParseFieldType buffer pos = (''<error: unknown type>'', pos + 1)"
    using ParseFieldType_unknown by blast
next
  assume "pos < length buffer \<and> buffer ! pos = CHR ''L'' \<and> CHR '';'' \<notin> set (drop (pos + 1) buffer)"
  then show "ParseFieldType buffer pos = (''<error: end of string reached>'', length buffer)"
    using ParseFieldType_unterminated by blast
next
  assume a: "pos < length buffer \<and> buffer ! pos = CHR ''('' \<and>
    ParseMethodTypeSignatureInternal_loop buffer (pos + 1) ''('' = (buf, pos1)"
  from a show "prefix ''('' buf"
    using Internal_result [of pos buffer buf pos1] by blast
  from a show "if pos1 < length buffer
       then buffer ! pos1 = CHR '')'' \<and>
            ParseMethodTypeSignatureInternal buffer pos = (buf @ '')'', pos1 + 1)
       else ParseMethodTypeSignatureInternal buffer pos =
            (buf @ '' <Method Signature Error: no '' @ [CHR 0x27] @ '')'' @ [CHR 0x27] @ ''>'',
             pos1)"
    using Internal_result [of pos buffer buf pos1] by blast
next
  assume "pos < length buffer \<and> buffer ! pos = CHR ''('' \<and> CHR '')'' \<notin> set (drop pos buffer)"
  then show "\<exists>args. ParseMethodTypeSignatureInternal buffer pos =
         (''('' @ args @ '' <Method Signature Error: no '' @ [CHR 0x27] @ '')'' @ [CHR 0x27] @ ''>'',
          length buffer)"
    using Internal_no_closing [of pos buffer] by blast
next
  assume "pos \<le> length buffer"
  then show "snd (ParseFieldType buffer pos) \<le> length buffer"
    using cursor_bounds(1) [of pos buffer] by simp
next
  assume "pos \<le> length buffer"
  then show "snd (ParseMethodTypeSignatureInternal buffer pos) \<le> length buffer"
    using cursor_bounds(3) [of pos buffer] by simp
next
  assume "pos \<le> length buffer"
  then show "snd (ParseMethodTypeSignatureWithReturn buffer pos) \<le> length buffer"
    using cursor_bounds(4) [of pos buffer] by simp
qed

theorem descriptor_parser_errors_witness:
  "ParseFieldType ''I'' 1 = (''<error: end of buffer reached>'', 1) \<and>
   ParseFieldType ''IX'' 1 = (''<error: unknown type>'', 2) \<and>
   ParseFieldType ''Lfoo'' 0 = (''<error: end of string reached>'', 4) \<and>
   ParseMethodTypeSignatureInternal ''(I)V'' 0 = (''(int)'', 3) \<and>
   (\<exists>args. ParseMethodTypeSignatureInternal ''(I'' 0 =
      (''('' @ args @ '' <Method Signature Error: no '' @ [CHR 0x27] @ '')'' @ [CHR 0x27] @ ''>'', 2)) \<and>
   snd (ParseFieldType ''[[I'' 0) \<le> 3"
proof -
  have l: "ParseMethodTypeSignatureInternal_loop ''(I)V'' (0 + 1) ''('' = (''(int'', 2)"
    by code_simp
  have a: "ParseFieldType ''I'' 1 = (''<error: end of buffer reached>'', 1)"
    using descriptor_parser_errors [of "''I''" 1, THEN conjunct1] by simp
  have b: "ParseFieldType ''IX'' 1 = (''<error: unknown type>'', 2)"
    using descriptor_parser_errors [of "''IX''" 1, THEN conjunct2, THEN conjunct1] by simp
  have c: "ParseFieldType ''Lfoo'' 0 = (''<error: end of string reached>'', 4)"
    using descriptor_parser_errors [of "''Lfoo''" 0, THEN conjunct2, THEN conjunct2, THEN conjunct1]
    by simp
  have d: "ParseMethodTypeSignatureInternal ''(I)V'' 0 = (''(int)'', 3)"
    using descriptor_parser_errors [of "''(I)V''" 0 "''(int''" 2,
        THEN conjunct2, THEN conjunct2, THEN conjunct2, THEN conjunct1] l
    by simp
  have e: "\<exists>args. ParseMethodTypeSignatureInternal ''(I'' 0 =
      (''('' @ args @ '' <Method Signature Error: no '' @ [CHR 0x27] @ '')'' @ [CHR 0x27] @ ''>'', 2)"
    using descriptor_parser_errors [of "''(I''" 0,
        THEN conjunct2, THEN conjunct2, THEN conjunct2, THEN conjunct2, THEN conjunct1]
    by (simp add: numeral_2_eq_2)
  have f: "snd (ParseFieldType ''[[I'' 0) \<le> 3"
    using descriptor_parser_errors [of "''[[I''" 0,
        THEN conjunct2, THEN conjunct2, THEN conjunct2, THEN conjunct2, THEN conjunct2]
    by simp
  show ?thesis
    by (intro conjI a b c d e f)
qed

section \<open>Name simplification (stacktrace\_fixer.cc)\<close>

text \<open>
  The three members of \<^verbatim>\<open>std::string\<close> that the rewrites use, on \<open>string\<close>, with
  \<^verbatim>\<open>npos\<close> as \<open>None\<close>: \<^verbatim>\<open>find(s, pos)\<close> is the least index from \<open>pos\<close> on at which
  \<open>s\<close> occurs, \<^verbatim>\<open>find_first_not_of(chars, pos)\<close> the least index from \<open>pos\<close> on
  whose character is none of \<open>chars\<close>, and \<^verbatim>\<open>erase(first, n)\<close> removes \<open>n\<close> characters
  from index \<open>first\<close> (\<^verbatim>\<open>erase(first)\<close> removes all of them).
\<close>

definition find_str :: "string \<Rightarrow> string \<Rightarrow> nat \<Rightarrow> nat option" where
  "find_str name s pos =
     List.find (\<lambda>i. take (length s) (drop i name) = s) [pos ..< Suc (length name)]"

definition find_first_not_of :: "string \<Rightarrow> string \<Rightarrow> nat \<Rightarrow> nat option" where
  "find_first_not_of name chars pos =
     List.find (\<lambda>i. name ! i \<notin> set chars) [pos ..< length name]"

definition erase :: "string \<Rightarrow> nat \<Rightarrow> nat \<Rightarrow> string" where
  "erase name first n = take first name @ drop (first + n) name"

definition erase_from :: "string \<Rightarrow> nat \<Rightarrow> string" where
  "erase_from name first = take first name"

text \<open>
  \<^verbatim>\<open>SimplifySuffixedName\<close> is a template over the sizes \<open>M\<close> and \<open>N\<close> of two character
  arrays, which count the terminating zero. In the model \<open>trigger\<close> and \<open>suffix_chars\<close>
  are the strings without it, so \<open>M - 1\<close> is \<open>length trigger\<close>. The call
  \<^verbatim>\<open>find_first_not_of(suffix_chars, first, N)\<close> passes all \<open>N\<close> characters of the array
  as the set, the terminating zero included; the model does the same.

  The loop advances because the trigger is not empty. All four instantiations in the file
  have a trigger of two characters or more; for an empty trigger, which never occurs, the
  C++ loop could run forever and the model returns the name as it is.
\<close>

function SimplifySuffixedName_loop :: "string \<Rightarrow> string \<Rightarrow> string \<Rightarrow> nat \<Rightarrow> string" where
  "SimplifySuffixedName_loop trigger suffix_chars name first =
     (if trigger = [] then name
      else
        case find_str name trigger first of
          None \<Rightarrow> name
        | Some found \<Rightarrow>
            let first1 = found + length trigger in
            (case find_first_not_of name (suffix_chars @ [CHR 0x00]) first1 of
               None \<Rightarrow> erase_from name first1
             | Some last1 \<Rightarrow>
                 SimplifySuffixedName_loop trigger suffix_chars
                   (erase name first1 (last1 - first1)) first1))"
  by pat_completeness auto

lemma find_upt_Some:
  assumes "List.find P [a ..< b] = Some i"
  shows "a \<le> i \<and> i < b \<and> P i \<and> (\<forall>j. a \<le> j \<and> j < i \<longrightarrow> \<not> P j)"
proof -
  from assms obtain k where k: "k < length [a ..< b]" "P ([a ..< b] ! k)" "i = [a ..< b] ! k"
      "\<forall>j<k. \<not> P ([a ..< b] ! j)"
    unfolding find_Some_iff by blast
  from k(1) have kb: "k < b - a"
    by (simp del: upt_Suc)
  with k(3) have i: "i = a + k"
    by (simp del: upt_Suc)
  have "\<not> P j" if "a \<le> j" "j < i" for j
  proof -
    from that i have "j - a < k" by simp
    with k(4) have "\<not> P ([a ..< b] ! (j - a))" by blast
    moreover from that i kb have "[a ..< b] ! (j - a) = j" by (simp del: upt_Suc)
    ultimately show ?thesis by simp
  qed
  with i kb k(2,3) show ?thesis by simp
qed

lemma find_upt_None:
  "List.find P [a ..< b] = None \<longleftrightarrow> (\<forall>i. a \<le> i \<and> i < b \<longrightarrow> \<not> P i)"
  unfolding find_None_iff by (auto simp del: upt_Suc)

lemma find_str_Some:
  assumes "find_str name s pos = Some i"
  shows "pos \<le> i \<and> i + length s \<le> length name \<and> take (length s) (drop i name) = s \<and>
     (\<forall>j. pos \<le> j \<and> j < i \<longrightarrow> take (length s) (drop j name) \<noteq> s)"
proof -
  from assms
  have "List.find (\<lambda>i. take (length s) (drop i name) = s) [pos ..< Suc (length name)] = Some i"
    unfolding find_str_def .
  from find_upt_Some [OF this]
  have f: "pos \<le> i" "i < Suc (length name)" "take (length s) (drop i name) = s"
      "\<forall>j. pos \<le> j \<and> j < i \<longrightarrow> take (length s) (drop j name) \<noteq> s"
    by blast+
  have "length (take (length s) (drop i name)) = min (length s) (length name - i)"
    by simp
  with f(3) have "length s = min (length s) (length name - i)"
    by simp
  with f(2) have "i + length s \<le> length name"
    by simp
  with f show ?thesis by simp
qed

lemma find_first_not_of_Some:
  assumes "find_first_not_of name chars pos = Some i"
  shows "pos \<le> i \<and> i < length name \<and> name ! i \<notin> set chars \<and>
     (\<forall>j. pos \<le> j \<and> j < i \<longrightarrow> name ! j \<in> set chars)"
proof -
  from assms
  have "List.find (\<lambda>i. name ! i \<notin> set chars) [pos ..< length name] = Some i"
    unfolding find_first_not_of_def .
  from find_upt_Some [OF this] show ?thesis
    by blast
qed

termination SimplifySuffixedName_loop
proof (relation "measure (\<lambda>(trigger, suffix_chars, name, first). length name - first)", goal_cases)
  case 1
  show ?case by simp
next
  case (2 trigger suffix_chars name first found first1 last1)
  from find_str_Some [OF 2(2)] have f: "first \<le> found"
    by simp
  from find_first_not_of_Some [OF 2(4)] 2(3) have l: "first1 \<le> last1" "last1 < length name"
    by simp_all
  from 2(1) have "0 < length trigger"
    by simp
  with f 2(3) have "first < first1"
    by linarith
  with l show ?case
    by (simp add: erase_def)
qed

declare SimplifySuffixedName_loop.simps [simp del]

definition SimplifySuffixedName :: "string \<Rightarrow> string \<Rightarrow> string \<Rightarrow> string" where
  "SimplifySuffixedName name trigger suffix_chars =
     SimplifySuffixedName_loop trigger suffix_chars name 0"

definition SimplifyDynamicClassName :: "string \<Rightarrow> string" where
  "SimplifyDynamicClassName name = SimplifySuffixedName name ''$$'' ''0123456789abcdef''"

text \<open>
  \<^verbatim>\<open>isdigit\<close> in the C locale. \<^verbatim>\<open>SimplifyLambdaName\<close> calls the two-argument
  \<^verbatim>\<open>find_first_not_of(digits, pos)\<close>, whose set is the C string without its zero.
\<close>

definition isdigit :: "char \<Rightarrow> bool" where
  "isdigit c \<longleftrightarrow> c \<in> set ''0123456789''"

definition SimplifyLambdaName :: "string \<Rightarrow> string" where
  "SimplifyLambdaName name =
     (let trigger = ''$$Lambda$'';
          digits = ''0123456789'';
          trigger_length = length trigger
      in case find_str name trigger 0 of
           None \<Rightarrow> name
         | Some found \<Rightarrow>
             let first = found + trigger_length in
             if first \<ge> length name \<or> \<not> isdigit (name ! first) then name
             else
               (case find_first_not_of name digits first of
                  None \<Rightarrow> name
                | Some last1 \<Rightarrow>
                    if name ! last1 \<noteq> CHR ''.'' then name
                    else
                      let last2 = last1 + 1 in
                      if last2 \<ge> length name \<or> \<not> isdigit (name ! last2) then name
                      else
                        (case find_first_not_of name digits last2 of
                           None \<Rightarrow> erase_from name first
                         | Some last3 \<Rightarrow> erase name first (last3 - first))))"

definition SimplifyReflectionMethodName :: "string \<Rightarrow> string" where
  "SimplifyReflectionMethodName name =
     (let digits = ''0123456789'' in
      SimplifySuffixedName
        (SimplifySuffixedName
          (SimplifySuffixedName name ''sun.reflect.GeneratedConstructorAccessor'' digits)
          ''sun.reflect.GeneratedMethodAccessor'' digits)
        ''sun.reflect.GeneratedSerializationConstructorAccessor'' digits)"

definition SimplifyFunctionName :: "string \<Rightarrow> string" where
  "SimplifyFunctionName name =
     SimplifyReflectionMethodName (SimplifyLambdaName (SimplifyDynamicClassName name))"

text \<open>
  C7 (as stated). The claim says that \<^verbatim>\<open>SimplifyFunctionName\<close> maps
  \<^verbatim>\<open>com.foo.Bar$$FastClassByCGLIB$$ab12ef34.invoke\<close> to \<^verbatim>\<open>com.foo.Bar$$.invoke\<close>. It
  does not: after the first \<^verbatim>\<open>$$\<close> comes \<^verbatim>\<open>F\<close>, which is not a lower-case hexadecimal
  digit, so nothing is removed there.
\<close>

theorem SimplifyFunctionName_keeps_FastClass:
  "SimplifyFunctionName ''com.foo.Bar$$FastClassByCGLIB$$ab12ef34.invoke'' \<noteq>
     ''com.foo.Bar$$.invoke''"
  by code_simp

text \<open>
  C7 (amended). \<^verbatim>\<open>SimplifyFunctionName\<close> removes only the run of hexadecimal digits that
  follows a \<^verbatim>\<open>$$\<close>: the first name becomes \<^verbatim>\<open>com.foo.Bar$$FastClassByCGLIB$$.invoke\<close>.
  The lambda and the reflection examples are as the claim has them.
\<close>

theorem SimplifyFunctionName_examples:
  "SimplifyFunctionName ''com.foo.Bar$$FastClassByCGLIB$$ab12ef34.invoke'' =
     ''com.foo.Bar$$FastClassByCGLIB$$.invoke'' \<and>
   SimplifyFunctionName ''com.foo.Baz$$Lambda$197.1849072452.run'' =
     ''com.foo.Baz$$Lambda$.run'' \<and>
   SimplifyFunctionName ''sun.reflect.GeneratedMethodAccessor42.invoke'' =
     ''sun.reflect.GeneratedMethodAccessor.invoke''"
  by code_simp

subsection \<open>The loop as a recursion over the rest of the name\<close>

text \<open>
  What the loop of \<^verbatim>\<open>SimplifySuffixedName\<close> computes, read from left to right: where the
  trigger begins the rest of the name, keep the trigger, drop the characters of the set that
  follow it and go on behind them; elsewhere keep one character and go on. It is proved
  below to be the loop.
\<close>

function strip_after :: "string \<Rightarrow> char set \<Rightarrow> string \<Rightarrow> string" where
  "strip_after t C s =
     (if t = [] then s
      else if prefix t s then t @ strip_after t C (dropWhile (\<lambda>c. c \<in> C) (drop (length t) s))
      else case s of [] \<Rightarrow> [] | x # xs \<Rightarrow> x # strip_after t C xs)"
  by pat_completeness auto

termination strip_after
proof (relation "measure (\<lambda>(t, C, s). length s)", goal_cases)
  case 1
  show ?case by simp
next
  case (2 t C s)
  have "length (dropWhile (\<lambda>c. c \<in> C) (drop (length t) s)) \<le> length s - length t"
    using length_dropWhile_le [of "\<lambda>c. c \<in> C" "drop (length t) s"] by simp
  moreover from 2 have "1 \<le> length t"
    by (cases t) simp_all
  moreover from 2 have "length t \<le> length s"
    by (simp add: prefix_length_le)
  ultimately have "length (dropWhile (\<lambda>c. c \<in> C) (drop (length t) s)) < length s"
    by linarith
  then show ?case
    by simp
next
  case (3 t C s x xs)
  then show ?case by simp
qed

declare strip_after.simps [simp del]

lemma strip_after_Nil [simp]: "strip_after t C [] = []"
  by (simp add: strip_after.simps [of t C "[]"])

lemma strip_after_prefix:
  "t \<noteq> [] \<Longrightarrow> prefix t s \<Longrightarrow>
   strip_after t C s = t @ strip_after t C (dropWhile (\<lambda>c. c \<in> C) (drop (length t) s))"
  by (simp add: strip_after.simps [of t C s])

lemma strip_after_Cons:
  "t \<noteq> [] \<Longrightarrow> \<not> prefix t (x # xs) \<Longrightarrow> strip_after t C (x # xs) = x # strip_after t C xs"
  by (simp add: strip_after.simps [of t C "x # xs"])

lemma strip_after_empty_trigger [simp]: "strip_after [] C s = s"
  by (simp add: strip_after.simps [of "[]" C s])

lemma take_eq_iff_prefix: "take (length t) s = t \<longleftrightarrow> prefix t s"
  by (metis prefix_def append_eq_conv_conj take_is_prefix)

text \<open>Where the trigger does not occur before index \<^verbatim>\<open>k\<close>, the first \<^verbatim>\<open>k\<close> characters stay.\<close>

lemma strip_after_skip:
  assumes "t \<noteq> []" and "k \<le> length s" and "\<forall>j < k. \<not> prefix t (drop j s)"
  shows "strip_after t C s = take k s @ strip_after t C (drop k s)"
  using assms(2,3)
proof (induction k arbitrary: s)
  case 0
  show ?case by simp
next
  case (Suc k)
  then obtain x xs where s: "s = x # xs"
    by (cases s) auto
  from Suc.prems(2) have "\<not> prefix t (drop 0 s)"
    by blast
  with s have np: "\<not> prefix t (x # xs)"
    by simp
  have "\<forall>j < k. \<not> prefix t (drop j xs)"
  proof (intro allI impI)
    fix j assume "j < k"
    then have "\<not> prefix t (drop (Suc j) s)"
      using Suc.prems(2) by simp
    then show "\<not> prefix t (drop j xs)"
      by (simp add: s)
  qed
  moreover from Suc.prems(1) s have "k \<le> length xs"
    by simp
  ultimately have "strip_after t C xs = take k xs @ strip_after t C (drop k xs)"
    by (rule Suc.IH [rotated])
  with np show ?case
    by (simp add: s strip_after_Cons [OF assms(1)])
qed

lemma strip_after_no_occurrence:
  assumes "t \<noteq> []" and "\<forall>j \<le> length s. \<not> prefix t (drop j s)"
  shows "strip_after t C s = s"
proof -
  from assms(2) have "\<forall>j < length s. \<not> prefix t (drop j s)"
    by simp
  with assms(1) have "strip_after t C s = take (length s) s @ strip_after t C (drop (length s) s)"
    by (rule strip_after_skip [OF _ le_refl])
  then show ?thesis
    by simp
qed

lemma find_str_None:
  "find_str name s pos = None \<longleftrightarrow>
     (\<forall>i. pos \<le> i \<and> i \<le> length name \<longrightarrow> \<not> prefix s (drop i name))"
proof -
  have "find_str name s pos = None \<longleftrightarrow>
      (\<forall>i. pos \<le> i \<and> i < Suc (length name) \<longrightarrow> take (length s) (drop i name) \<noteq> s)"
    unfolding find_str_def by (rule find_upt_None)
  then show ?thesis
    by (simp add: take_eq_iff_prefix less_Suc_eq_le)
qed

lemma find_first_not_of_None:
  "find_first_not_of name chars pos = None \<longleftrightarrow>
     (\<forall>i. pos \<le> i \<and> i < length name \<longrightarrow> name ! i \<in> set chars)"
proof -
  have "find_first_not_of name chars pos = None \<longleftrightarrow>
      (\<forall>i. pos \<le> i \<and> i < length name \<longrightarrow> \<not> name ! i \<notin> set chars)"
    unfolding find_first_not_of_def by (rule find_upt_None)
  then show ?thesis
    by simp
qed

lemma dropWhile_drop_all:
  assumes "\<forall>i. pos \<le> i \<and> i < length name \<longrightarrow> name ! i \<in> C"
  shows "dropWhile (\<lambda>c. c \<in> C) (drop pos name) = []"
proof -
  have "\<forall>c \<in> set (drop pos name). c \<in> C"
  proof
    fix c assume "c \<in> set (drop pos name)"
    then obtain k where "k < length (drop pos name)" "c = drop pos name ! k"
      by (auto simp: in_set_conv_nth)
    then have "c = name ! (pos + k)" "pos + k < length name"
      by simp_all
    with assms show "c \<in> C"
      by simp
  qed
  then show ?thesis
    by simp
qed

lemma dropWhile_drop_until:
  assumes "pos \<le> l" and "l < length name" and "name ! l \<notin> C"
    and "\<forall>j. pos \<le> j \<and> j < l \<longrightarrow> name ! j \<in> C"
  shows "dropWhile (\<lambda>c. c \<in> C) (drop pos name) = drop l name"
proof -
  have d: "drop pos name = take (l - pos) (drop pos name) @ drop l name"
    using assms(1) by (metis append_take_drop_id drop_drop le_add_diff_inverse2)
  have "\<forall>c \<in> set (take (l - pos) (drop pos name)). c \<in> C"
  proof
    fix c assume "c \<in> set (take (l - pos) (drop pos name))"
    then obtain k where k: "k < length (take (l - pos) (drop pos name))"
        "c = take (l - pos) (drop pos name) ! k"
      by (auto simp: in_set_conv_nth)
    then have "k < l - pos" by simp
    with k assms(2) have "c = name ! (pos + k)" "pos + k < l"
      by simp_all
    with assms(4) show "c \<in> C"
      by simp
  qed
  moreover from assms(2,3) have "drop l name = name ! l # drop (Suc l) name" "name ! l \<notin> C"
    by (simp_all add: Cons_nth_drop_Suc)
  ultimately have "dropWhile (\<lambda>c. c \<in> C) (take (l - pos) (drop pos name) @ drop l name) =
      drop l name"
    by (simp add: dropWhile_append2)
  with d show ?thesis
    by simp
qed

lemma SimplifySuffixedName_loop_eq:
  assumes "first \<le> length name"
  shows "SimplifySuffixedName_loop t cs name first =
     take first name @ strip_after t (set (cs @ [CHR 0x00])) (drop first name)"
  using assms
proof (induction t cs name first rule: SimplifySuffixedName_loop.induct)
  case (1 t cs name first)
  define C where "C = set (cs @ [CHR 0x00])"
  note unfold = SimplifySuffixedName_loop.simps [of t cs name first]
  have "SimplifySuffixedName_loop t cs name first =
     take first name @ strip_after t C (drop first name)"
  proof (cases "t = []")
    case True
    then have "SimplifySuffixedName_loop t cs name first = name"
      by (subst unfold) simp
    with True show ?thesis
      by simp
  next
    case ne: False
    show ?thesis
    proof (cases "find_str name t first")
      case None
      then have "\<forall>i. first \<le> i \<and> i \<le> length name \<longrightarrow> \<not> prefix t (drop i name)"
        by (simp add: find_str_None)
      then have "\<forall>j \<le> length (drop first name). \<not> prefix t (drop j (drop first name))"
        using "1.prems" by (simp add: add.commute)
      with ne have "strip_after t C (drop first name) = drop first name"
        by (rule strip_after_no_occurrence)
      with ne None show ?thesis
        by (simp add: unfold)
    next
      case (Some found)
      let ?first1 = "found + length t"
      from find_str_Some [OF Some]
      have f: "first \<le> found" "?first1 \<le> length name" "take (length t) (drop found name) = t"
          "\<forall>j. first \<le> j \<and> j < found \<longrightarrow> take (length t) (drop j name) \<noteq> t"
        by simp_all
      from f(3) have pre: "prefix t (drop found name)"
        by (simp add: take_eq_iff_prefix)
      have nomatch: "\<forall>j < found - first. \<not> prefix t (drop j (drop first name))"
      proof (intro allI impI)
        fix j assume "j < found - first"
        with f(4) have "take (length t) (drop (first + j) name) \<noteq> t"
          by simp
        then show "\<not> prefix t (drop j (drop first name))"
          by (simp add: take_eq_iff_prefix add.commute)
      qed
      from f(1,2) have "found - first \<le> length (drop first name)"
        by simp
      from strip_after_skip [OF ne this nomatch]
      have "strip_after t C (drop first name) =
          take (found - first) (drop first name) @ strip_after t C (drop (found - first) (drop first name))" .
      moreover from f(1) have "drop (found - first) (drop first name) = drop found name"
        by simp
      moreover from f(1) have "take first name @ take (found - first) (drop first name) = take found name"
        by (metis le_add_diff_inverse take_add)
      ultimately have 1: "take first name @ strip_after t C (drop first name) =
          take found name @ strip_after t C (drop found name)"
        by simp
      have 2: "strip_after t C (drop found name) =
          t @ strip_after t C (dropWhile (\<lambda>c. c \<in> C) (drop ?first1 name))"
        using strip_after_prefix [OF ne pre, of C] by (simp add: add.commute)
      have 3: "take found name @ t = take ?first1 name"
        using f(3) by (simp add: take_add)
      show ?thesis
      proof (cases "find_first_not_of name (cs @ [CHR 0x00]) ?first1")
        case None
        then have "\<forall>i. ?first1 \<le> i \<and> i < length name \<longrightarrow> name ! i \<in> C"
          unfolding C_def find_first_not_of_None .
        then have "dropWhile (\<lambda>c. c \<in> C) (drop ?first1 name) = []"
          by (rule dropWhile_drop_all)
        with 1 2 3 have "take first name @ strip_after t C (drop first name) = take ?first1 name"
          by simp
        with ne Some None show ?thesis
          by (simp add: unfold erase_from_def)
      next
        case l: (Some last1)
        from find_first_not_of_Some [OF l]
        have g: "?first1 \<le> last1" "last1 < length name" "name ! last1 \<notin> C"
            "\<forall>j. ?first1 \<le> j \<and> j < last1 \<longrightarrow> name ! j \<in> C"
          unfolding C_def by blast+
        then have d: "dropWhile (\<lambda>c. c \<in> C) (drop ?first1 name) = drop last1 name"
          by (rule dropWhile_drop_until)
        let ?name1 = "erase name ?first1 (last1 - ?first1)"
        from g(1) f(2) have n1: "?name1 = take ?first1 name @ drop last1 name"
          by (simp add: erase_def)
        with f(2) have "?first1 \<le> length ?name1"
          by simp
        with "1.IH" [OF ne Some refl l]
        have "SimplifySuffixedName_loop t cs ?name1 ?first1 =
            take ?first1 ?name1 @ strip_after t C (drop ?first1 ?name1)"
          unfolding C_def by blast
        also from f(2) have "\<dots> = take ?first1 name @ strip_after t C (drop last1 name)"
          by (simp add: n1)
        finally have "SimplifySuffixedName_loop t cs ?name1 ?first1 =
            take first name @ strip_after t C (drop first name)"
          using 1 2 3 d by simp
        with ne Some l show ?thesis
          by (simp add: unfold Let_def)
      qed
    qed
  qed
  then show ?case
    unfolding C_def .
qed

lemma SimplifySuffixedName_eq:
  "SimplifySuffixedName name t cs = strip_after t (set (cs @ [CHR 0x00])) name"
  using SimplifySuffixedName_loop_eq [of 0 name t cs] by (simp add: SimplifySuffixedName_def)

subsection \<open>Idempotence of one rewrite\<close>

lemma strip_after_eq_Nil [simp]: "strip_after t C s = [] \<longleftrightarrow> s = []"
proof (cases "t = []")
  case True
  then show ?thesis by simp
next
  case ne: False
  show ?thesis
  proof (cases s)
    case Nil
    then show ?thesis by simp
  next
    case (Cons x xs)
    show ?thesis
    proof (cases "prefix t s")
      case True
      with ne show ?thesis
        by (simp add: strip_after_prefix Cons)
    next
      case False
      with ne show ?thesis
        by (simp add: Cons strip_after_Cons)
    qed
  qed
qed

lemma hd_strip_after: "hd (strip_after t C s) = hd s"
proof (cases "t = []")
  case True
  then show ?thesis by simp
next
  case ne: False
  show ?thesis
  proof (cases s)
    case Nil
    then show ?thesis by simp
  next
    case (Cons x xs)
    show ?thesis
    proof (cases "prefix t s")
      case True
      then obtain r where "s = t @ r"
        by (auto simp: prefix_def)
      with ne True show ?thesis
        by (simp add: strip_after_prefix)
    next
      case False
      with ne show ?thesis
        by (simp add: Cons strip_after_Cons)
    qed
  qed
qed

text \<open>
  The rewrite changes nothing up to the end of the first occurrence of its trigger: a
  string that is found at the front of the result, and has no room for the trigger before
  its last character, was at the front before.
\<close>

lemma prefix_strip_after:
  assumes "t \<noteq> []" and "prefix w (p @ strip_after t C s)" and "\<not> sublist t (butlast w)"
  shows "prefix w (p @ s)"
  using assms
proof (induction t C s arbitrary: p rule: strip_after.induct)
  case (1 t C s)
  note ne = "1.prems"(1) and pw = "1.prems"(2) and ns = "1.prems"(3)
  show ?case
  proof (cases "prefix t s")
    case True
    then obtain rest where s: "s = t @ rest"
      by (auto simp: prefix_def)
    let ?r = "strip_after t C (dropWhile (\<lambda>c. c \<in> C) (drop (length t) s))"
    have e: "strip_after t C s = t @ ?r"
      using ne True by (rule strip_after_prefix)
    from pw have "prefix w ((p @ t) @ ?r)"
      unfolding e by simp
    then consider "prefix w (p @ t)" | us where "w = (p @ t) @ us" "prefix us ?r"
      unfolding prefix_append by blast
    then show ?thesis
    proof cases
      case 1
      moreover have "prefix (p @ t) (p @ s)"
        by (simp add: s)
      ultimately show ?thesis
        by (rule prefix_order.trans)
    next
      case 2
      show ?thesis
      proof (cases "us = []")
        case True
        with 2 show ?thesis
          by (simp add: s)
      next
        case False
        with 2(1) have "butlast w = p @ t @ butlast us"
          by (simp add: butlast_append)
        then have "sublist t (butlast w)"
          by simp
        with ns show ?thesis
          by simp
      qed
    qed
  next
    case np: False
    show ?thesis
    proof (cases s)
      case Nil
      with pw show ?thesis by simp
    next
      case (Cons x xs)
      have e: "strip_after t C s = x # strip_after t C xs"
        using ne np unfolding Cons by (rule strip_after_Cons)
      from pw have "prefix w ((p @ [x]) @ strip_after t C xs)"
        unfolding e by simp
      from "1.IH"(2) [OF ne np Cons ne this ns] have "prefix w ((p @ [x]) @ xs)" .
      with Cons show ?thesis
        by simp
    qed
  qed
qed

lemma not_sublist_butlast:
  assumes "t \<noteq> []"
  shows "\<not> sublist t (butlast t)"
proof
  assume "sublist t (butlast t)"
  then have "length t \<le> length (butlast t)"
    by (rule sublist_length_le)
  moreover from assms have "1 \<le> length t"
    by (cases t) simp_all
  moreover have "length (butlast t) = length t - 1"
    by simp
  ultimately show False
    by linarith
qed

lemma prefix_trigger_strip_after:
  assumes "t \<noteq> []" and "prefix t (p @ strip_after t C s)"
  shows "prefix t (p @ s)"
  using assms not_sublist_butlast [OF assms(1)] by (rule prefix_strip_after)

lemma dropWhile_id_hd: "xs = [] \<or> hd xs \<notin> C \<Longrightarrow> dropWhile (\<lambda>c. c \<in> C) xs = xs"
  by (cases xs) auto

lemma strip_after_idem: "strip_after t C (strip_after t C s) = strip_after t C s"
proof (cases "t = []")
  case True
  then show ?thesis by simp
next
  case ne: False
  show ?thesis
  proof (induction t C s rule: strip_after.induct)
    case (1 t C s)
    show ?case
    proof (cases "t = []")
      case True
      then show ?thesis by simp
    next
      case ne: False
      show ?thesis
      proof (cases "prefix t s")
        case True
        let ?d = "dropWhile (\<lambda>c. c \<in> C) (drop (length t) s)"
        let ?r = "strip_after t C ?d"
        have e: "strip_after t C s = t @ ?r"
          using ne True by (rule strip_after_prefix)
        have "?r = [] \<or> hd ?r \<notin> C"
        proof (cases "?d = []")
          case True
          have "strip_after t C ?d = []"
            unfolding True by (rule strip_after_Nil)
          then show ?thesis ..
        next
          case False
          then have "hd ?d \<notin> C"
            by (rule hd_dropWhile)
          then show ?thesis
            by (simp add: hd_strip_after)
        qed
        then have "dropWhile (\<lambda>c. c \<in> C) ?r = ?r"
          by (rule dropWhile_id_hd)
        then have "strip_after t C (t @ ?r) = t @ strip_after t C ?r"
          using ne by (simp add: strip_after_prefix)
        with "1.IH"(1) [OF ne True] e show ?thesis
          by simp
      next
        case np: False
        show ?thesis
        proof (cases s)
          case Nil
          then show ?thesis by simp
        next
          case (Cons x xs)
          have e: "strip_after t C s = x # strip_after t C xs"
            using ne np by (simp add: Cons strip_after_Cons)
          have "\<not> prefix t (x # strip_after t C xs)"
          proof
            assume "prefix t (x # strip_after t C xs)"
            then have "prefix t ([x] @ strip_after t C xs)"
              by simp
            with ne have "prefix t ([x] @ xs)"
              by (rule prefix_trigger_strip_after)
            with np Cons show False
              by simp
          qed
          with ne have "strip_after t C (x # strip_after t C xs) =
              x # strip_after t C (strip_after t C xs)"
            by (rule strip_after_Cons)
          with "1.IH"(2) [OF ne np Cons] e show ?thesis
            by simp
        qed
      qed
    qed
  qed
qed

lemma no_sublist_no_prefix:
  assumes "\<not> sublist t s"
  shows "\<not> prefix t (drop j s)"
proof
  assume "prefix t (drop j s)"
  then obtain rest where "drop j s = t @ rest"
    by (auto simp: prefix_def)
  then have "s = take j s @ t @ rest"
    by (metis append_take_drop_id)
  then have "sublist t s"
    unfolding sublist_def by blast
  with assms show False
    by simp
qed

lemma SimplifySuffixedName_no_trigger:
  assumes "\<not> sublist t name"
  shows "SimplifySuffixedName name t cs = name"
proof -
  from assms have "t \<noteq> []"
    by auto
  moreover from assms have "\<forall>j \<le> length name. \<not> prefix t (drop j name)"
    by (simp add: no_sublist_no_prefix)
  ultimately show ?thesis
    unfolding SimplifySuffixedName_eq by (rule strip_after_no_occurrence)
qed

lemma SimplifySuffixedName_idem:
  "SimplifySuffixedName (SimplifySuffixedName name t cs) t cs = SimplifySuffixedName name t cs"
  by (simp add: SimplifySuffixedName_eq strip_after_idem)

subsection \<open>The lambda rewrite\<close>

lemma find_str_SomeI:
  assumes "pos \<le> i" and "i \<le> length name" and "prefix s (drop i name)"
    and "\<forall>j. pos \<le> j \<and> j < i \<longrightarrow> \<not> prefix s (drop j name)"
  shows "find_str name s pos = Some i"
proof (cases "find_str name s pos")
  case None
  with assms(1-3) show ?thesis
    by (simp add: find_str_None)
next
  case (Some k)
  from find_str_Some [OF Some]
  have k: "pos \<le> k" "k \<le> length name" "prefix s (drop k name)"
      "\<forall>j. pos \<le> j \<and> j < k \<longrightarrow> \<not> prefix s (drop j name)"
    by (simp_all add: take_eq_iff_prefix)
  have "\<not> k < i"
    using assms(4) k(1,3) by blast
  moreover have "\<not> i < k"
    using k(4) assms(1,3) by blast
  ultimately have "k = i"
    by simp
  with Some show ?thesis
    by simp
qed

lemma SimplifyLambdaName_no_trigger:
  assumes "\<not> sublist ''$$Lambda$'' name"
  shows "SimplifyLambdaName name = name"
proof -
  from assms have "\<forall>i. 0 \<le> i \<and> i \<le> length name \<longrightarrow> \<not> prefix ''$$Lambda$'' (drop i name)"
    by (simp add: no_sublist_no_prefix)
  then have "find_str name ''$$Lambda$'' 0 = None"
    unfolding find_str_None .
  then show ?thesis
    by (simp add: SimplifyLambdaName_def)
qed

lemma SimplifyLambdaName_unfold:
  "SimplifyLambdaName name =
     (case find_str name ''$$Lambda$'' 0 of
        None \<Rightarrow> name
      | Some found \<Rightarrow>
          if length name \<le> found + 9 \<or> \<not> isdigit (name ! (found + 9)) then name
          else
            (case find_first_not_of name ''0123456789'' (found + 9) of
               None \<Rightarrow> name
             | Some last1 \<Rightarrow>
                 if name ! last1 \<noteq> CHR ''.'' then name
                 else
                   if length name \<le> last1 + 1 \<or> \<not> isdigit (name ! (last1 + 1)) then name
                   else
                     (case find_first_not_of name ''0123456789'' (last1 + 1) of
                        None \<Rightarrow> take (found + 9) name
                      | Some last3 \<Rightarrow>
                          take (found + 9) name @
                            drop (found + 9 + (last3 - (found + 9))) name)))"
proof -
  have len: "length ''$$Lambda$'' = 9"
    by simp
  show ?thesis
    unfolding SimplifyLambdaName_def Let_def len erase_def erase_from_def ..
qed

text \<open>
  Where the lambda rewrite changes a name, the result is the name up to the end of the
  first trigger followed by a rest that does not begin with a digit.
\<close>

lemma SimplifyLambdaName_cases:
  "SimplifyLambdaName name = name \<or>
   (\<exists>found rest. find_str name ''$$Lambda$'' 0 = Some found \<and>
      SimplifyLambdaName name = take (found + 9) name @ rest \<and>
      (rest = [] \<or> \<not> isdigit (hd rest)))"
proof (cases "find_str name ''$$Lambda$'' 0")
  case None
  then show ?thesis
    by (simp add: SimplifyLambdaName_unfold)
next
  case (Some found)
  let ?first = "found + 9"
  show ?thesis
  proof (cases "length name \<le> ?first \<or> \<not> isdigit (name ! ?first)")
    case True
    with Some show ?thesis
      by (auto simp: SimplifyLambdaName_unfold)
  next
    case c1: False
    show ?thesis
    proof (cases "find_first_not_of name ''0123456789'' ?first")
      case None
      with Some c1 show ?thesis
        by (simp add: SimplifyLambdaName_unfold)
    next
      case l1: (Some last1)
      show ?thesis
      proof (cases "name ! last1 \<noteq> CHR ''.'' \<or> length name \<le> last1 + 1 \<or>
          \<not> isdigit (name ! (last1 + 1))")
        case True
        with Some c1 l1 show ?thesis
          by (auto simp: SimplifyLambdaName_unfold)
      next
        case c2: False
        show ?thesis
        proof (cases "find_first_not_of name ''0123456789'' (last1 + 1)")
          case None
          with Some c1 l1 c2 have "SimplifyLambdaName name = take ?first name @ []"
            by (simp add: SimplifyLambdaName_unfold)
          with Some show ?thesis
            by blast
        next
          case l3: (Some last3)
          from find_first_not_of_Some [OF l1] find_first_not_of_Some [OF l3]
          have g: "?first \<le> last1" "last1 + 1 \<le> last3" "last3 < length name"
              "name ! last3 \<notin> set ''0123456789''"
            by blast+
          then have "?first + (last3 - ?first) = last3"
            by simp
          with Some c1 l1 c2 l3
          have "SimplifyLambdaName name = take ?first name @ drop last3 name"
            by (simp add: SimplifyLambdaName_unfold)
          moreover from g(3,4) have "\<not> isdigit (hd (drop last3 name))"
            by (simp add: hd_drop_conv_nth isdigit_def)
          ultimately show ?thesis
            using Some by blast
        qed
      qed
    qed
  qed
qed

lemma find_str_Some_prefix:
  assumes "find_str name s pos = Some i"
  shows "pos \<le> i" and "i + length s \<le> length name" and "prefix s (drop i name)"
    and "\<forall>j. pos \<le> j \<and> j < i \<longrightarrow> \<not> prefix s (drop j name)"
  using find_str_Some [OF assms] unfolding take_eq_iff_prefix by blast+

lemma drop_take_trigger:
  assumes "i + length t \<le> length name" and "prefix t (drop i name)"
  shows "drop i (take (i + length t) name @ rest) = t @ rest"
proof -
  from assms(2) have "take (length t) (drop i name) = t"
    by (simp add: take_eq_iff_prefix)
  then have "take (i + length t) name = take i name @ t"
    by (simp add: take_add)
  moreover from assms(1) have "length (take i name) = i"
    by simp
  ultimately show ?thesis
    by simp
qed

lemma prefix_drop_take_trigger:
  assumes "j < i" and "i + length t \<le> length name"
    and "prefix t (drop j (take (i + length t) name @ rest))"
  shows "prefix t (drop j name)"
proof -
  from assms(1,2) have "take (length t) (drop j (take (i + length t) name @ rest)) =
      take (length t) (drop j name)"
    by (simp add: drop_take)
  with assms(3) show ?thesis
    unfolding take_eq_iff_prefix [symmetric] by simp
qed

lemma SimplifyLambdaName_idem:
  "SimplifyLambdaName (SimplifyLambdaName name) = SimplifyLambdaName name"
proof -
  let ?T = "''$$Lambda$''"
  from SimplifyLambdaName_cases [of name]
  consider "SimplifyLambdaName name = name"
    | found rest where "find_str name ?T 0 = Some found"
        "SimplifyLambdaName name = take (found + 9) name @ rest"
        "rest = [] \<or> \<not> isdigit (hd rest)"
    by blast
  then show ?thesis
  proof cases
    case 1
    then show ?thesis by simp
  next
    case 2
    let ?r = "take (found + length ?T) name @ rest"
    have "length ?T = 9"
      by simp
    then have r: "take (found + 9) name @ rest = ?r"
      by (simp only:)
    note f = find_str_Some_prefix [OF 2(1)]
    have len: "length ?r = found + length ?T + length rest"
      using f(2) by (simp only: length_append length_take min.absorb2)
    have d: "drop found ?r = ?T @ rest"
      using f(2,3) by (rule drop_take_trigger)
    have "find_str ?r ?T 0 = Some found"
    proof (rule find_str_SomeI)
      show "0 \<le> found" by simp
      show "found \<le> length ?r" unfolding len by simp
      show "prefix ?T (drop found ?r)" unfolding d by simp
      show "\<forall>j. 0 \<le> j \<and> j < found \<longrightarrow> \<not> prefix ?T (drop j ?r)"
      proof (intro allI impI notI)
        fix j assume j: "0 \<le> j \<and> j < found" and p: "prefix ?T (drop j ?r)"
        from j have "j < found" ..
        from this f(2) p have "prefix ?T (drop j name)"
          by (rule prefix_drop_take_trigger)
        with f(4) j show False
          by blast
      qed
    qed
    then have fs: "find_str (take (found + 9) name @ rest) ?T 0 = Some found"
      unfolding r .
    have "length (take (found + 9) name @ rest) \<le> found + 9 \<or>
        \<not> isdigit ((take (found + 9) name @ rest) ! (found + 9))"
    proof (cases "rest = []")
      case True
      then show ?thesis by simp
    next
      case False
      from f(2) have "length (take (found + 9) name) = found + 9"
        by simp
      with False have "(take (found + 9) name @ rest) ! (found + 9) = hd rest"
        by (simp add: nth_append hd_conv_nth)
      with 2(3) False show ?thesis
        by simp
    qed
    with fs have "SimplifyLambdaName (take (found + 9) name @ rest) = take (found + 9) name @ rest"
      by (auto simp: SimplifyLambdaName_unfold)
    with 2(2) show ?thesis
      by simp
  qed
qed

subsection \<open>Where a trigger followed by a character of the set can occur in the result\<close>

lemma sublist_mono_right:
  assumes "sublist w r" and "sublist r s"
  shows "sublist w s"
proof -
  from assms obtain a b c d where "r = a @ w @ b" and "s = c @ r @ d"
    unfolding sublist_def by blast
  then have "s = (c @ a) @ w @ (b @ d)"
    by simp
  then show ?thesis
    unfolding sublist_def by blast
qed

lemma length_dropWhile_drop_less:
  assumes "t \<noteq> []" and "prefix t s"
  shows "length (dropWhile (\<lambda>c. c \<in> C) (drop (length t) s)) < length s"
proof -
  have "length (dropWhile (\<lambda>c. c \<in> C) (drop (length t) s)) \<le> length s - length t"
    using length_dropWhile_le [of "\<lambda>c. c \<in> C" "drop (length t) s"] by simp
  moreover from assms(1) have "1 \<le> length t"
    by (cases t) simp_all
  moreover from assms(2) have "length t \<le> length s"
    by (simp add: prefix_length_le)
  ultimately show ?thesis
    by linarith
qed

lemma dropWhile_hd: "dropWhile (\<lambda>c. c \<in> C) xs = [] \<or> hd (dropWhile (\<lambda>c. c \<in> C) xs) \<notin> C"
  using hd_dropWhile [of "\<lambda>c. c \<in> C" xs] by blast

text \<open>
  A trigger no proper end of which begins it again: after one pass no occurrence of the
  trigger is followed by a character of the set.
\<close>

lemma strip_after_clean:
  assumes t: "t \<noteq> []"
    and bf: "\<forall>w. w \<noteq> [] \<and> w \<noteq> t \<and> suffix w t \<longrightarrow> \<not> prefix w t"
    and c: "c \<in> C"
  shows "\<not> sublist (t @ [c]) (strip_after t C s)"
proof (induction "length s" arbitrary: s rule: less_induct)
  case less
  show ?case
  proof (cases "prefix t s")
    case True
    define r where "r = dropWhile (\<lambda>c. c \<in> C) (drop (length t) s)"
    have out: "strip_after t C s = t @ strip_after t C r"
      unfolding r_def using t True by (rule strip_after_prefix)
    have "length r < length s"
      unfolding r_def using t True by (rule length_dropWhile_drop_less)
    then have IH: "\<not> sublist (t @ [c]) (strip_after t C r)"
      by (rule less)
    have r_hd: "r = [] \<or> hd r \<notin> C"
      unfolding r_def by (rule dropWhile_hd)
    show ?thesis
    proof
      assume "sublist (t @ [c]) (strip_after t C s)"
      then consider "sublist (t @ [c]) t" | "sublist (t @ [c]) (strip_after t C r)"
        | w1 w2 where "t @ [c] = w1 @ w2" "suffix w1 t" "prefix w2 (strip_after t C r)"
        unfolding out sublist_append by blast
      then show False
      proof cases
        case 1
        then have "length (t @ [c]) \<le> length t"
          by (rule sublist_length_le)
        then show False
          by simp
      next
        case 2
        with IH show False
          by simp
      next
        case 3
        show False
        proof (cases "w1 = t")
          case True
          with 3(1) have "w2 = [c]"
            by simp
          with 3(3) have p: "prefix [c] (strip_after t C r)"
            by simp
          then have ne: "strip_after t C r \<noteq> []"
            by auto
          then have "r \<noteq> []"
            by simp
          moreover from p ne have "hd (strip_after t C r) = c"
            by (cases "strip_after t C r") simp_all
          then have "hd r = c"
            by (simp add: hd_strip_after)
          ultimately show False
            using r_hd c by simp
        next
          case False
          show False
          proof (cases "w1 = []")
            case True
            with 3(1,3) have "prefix (t @ [c]) (strip_after t C r)"
              by simp
            then have "sublist (t @ [c]) (strip_after t C r)"
              by (rule prefix_imp_sublist)
            with IH show False
              by simp
          next
            case ne: False
            from 3(2) have "length w1 \<le> length t"
              by (rule suffix_length_le)
            moreover from 3(1) have "prefix w1 (t @ [c])"
              by (simp add: prefix_def)
            ultimately have "prefix w1 t"
              using prefix_length_prefix [of w1 "t @ [c]" t] by simp
            with bf ne False 3(2) show False
              by blast
          qed
        qed
      qed
    qed
  next
    case np: False
    show ?thesis
    proof (cases s)
      case Nil
      then show ?thesis
        by simp
    next
      case (Cons x xs)
      with np have out: "strip_after t C s = x # strip_after t C xs"
        using t by (simp add: strip_after_Cons)
      from Cons have "length xs < length s"
        by simp
      then have IH: "\<not> sublist (t @ [c]) (strip_after t C xs)"
        by (rule less)
      show ?thesis
      proof
        assume "sublist (t @ [c]) (strip_after t C s)"
        with IH have "prefix (t @ [c]) (x # strip_after t C xs)"
          unfolding out sublist_Cons_right by simp
        then have "prefix t ([x] @ strip_after t C xs)"
          by (simp add: prefix_def) (metis append.assoc)
        with t have "prefix t ([x] @ xs)"
          by (rule prefix_trigger_strip_after)
        with np Cons show False
          by simp
      qed
    qed
  qed
qed

text \<open>
  A pass for one trigger brings no occurrence of another word followed by a character, when
  the trigger is no part of the word and no end of the trigger begins the word.
\<close>

lemma strip_after_keeps_clean:
  assumes t: "t \<noteq> []"
    and ns: "\<not> sublist t u"
    and no: "\<forall>w. w \<noteq> [] \<and> suffix w t \<longrightarrow> \<not> prefix w u"
    and occ: "sublist (u @ [c]) (strip_after t C s)"
  shows "sublist (u @ [c]) s"
  using occ
proof (induction "length s" arbitrary: s rule: less_induct)
  case less
  have nb: "\<not> sublist t (butlast (u @ [c]))"
    using ns by simp
  show ?case
  proof (cases "prefix t s")
    case True
    define r where "r = dropWhile (\<lambda>c. c \<in> C) (drop (length t) s)"
    have out: "strip_after t C s = t @ strip_after t C r"
      unfolding r_def using t True by (rule strip_after_prefix)
    have "length r < length s"
      unfolding r_def using t True by (rule length_dropWhile_drop_less)
    then have IH: "sublist (u @ [c]) (strip_after t C r) \<Longrightarrow> sublist (u @ [c]) r"
      by (rule less)
    have "suffix r (drop (length t) s)"
      unfolding r_def by (rule suffix_dropWhile)
    moreover have "suffix (drop (length t) s) s"
      by (rule suffix_drop)
    ultimately have "suffix r s"
      by (rule suffix_order.trans)
    then have rs: "sublist r s"
      by (rule suffix_imp_sublist)
    from less.prems consider "sublist (u @ [c]) t" | "sublist (u @ [c]) (strip_after t C r)"
      | w1 w2 where "u @ [c] = w1 @ w2" "suffix w1 t" "prefix w2 (strip_after t C r)"
      unfolding out sublist_append by blast
    then show ?thesis
    proof cases
      case 1
      moreover from True have "sublist t s"
        by (rule prefix_imp_sublist)
      ultimately show ?thesis
        by (rule sublist_mono_right)
    next
      case 2
      then have "sublist (u @ [c]) r"
        by (rule IH)
      then show ?thesis
        using rs by (rule sublist_mono_right)
    next
      case 3
      show ?thesis
      proof (cases "w1 = []")
        case True
        with 3(1,3) have "prefix (u @ [c]) (strip_after t C r)"
          by simp
        then have "sublist (u @ [c]) (strip_after t C r)"
          by (rule prefix_imp_sublist)
        then have "sublist (u @ [c]) r"
          by (rule IH)
        then show ?thesis
          using rs by (rule sublist_mono_right)
      next
        case ne: False
        show ?thesis
        proof (cases "w2 = []")
          case True
          with 3(1,2) have "suffix (u @ [c]) t"
            by simp
          then have "sublist (u @ [c]) t"
            by (rule suffix_imp_sublist)
          moreover from \<open>prefix t s\<close> have "sublist t s"
            by (rule prefix_imp_sublist)
          ultimately show ?thesis
            by (rule sublist_mono_right)
        next
          case False
          with 3(1) have "length w1 \<le> length u"
            by (cases w2) (auto dest: arg_cong [where f = length])
          moreover from 3(1) have "prefix w1 (u @ [c])"
            by (simp add: prefix_def)
          ultimately have "prefix w1 u"
            using prefix_length_prefix [of w1 "u @ [c]" u] by simp
          with no ne 3(2) have False
            by blast
          then show ?thesis ..
        qed
      qed
    qed
  next
    case np: False
    show ?thesis
    proof (cases s)
      case Nil
      with less.prems show ?thesis
        by simp
    next
      case (Cons x xs)
      with np have out: "strip_after t C s = x # strip_after t C xs"
        using t by (simp add: strip_after_Cons)
      from Cons have "length xs < length s"
        by simp
      then have IH: "sublist (u @ [c]) (strip_after t C xs) \<Longrightarrow> sublist (u @ [c]) xs"
        by (rule less)
      from less.prems consider "prefix (u @ [c]) ([x] @ strip_after t C xs)"
        | "sublist (u @ [c]) (strip_after t C xs)"
        unfolding out sublist_Cons_right by auto
      then show ?thesis
      proof cases
        case 1
        with t have "prefix (u @ [c]) ([x] @ xs)"
          using nb by (rule prefix_strip_after)
        with Cons show ?thesis
          by simp
      next
        case 2
        then have "sublist (u @ [c]) xs"
          by (rule IH)
        with Cons show ?thesis
          by (simp add: sublist_Cons_right)
      qed
    qed
  qed
qed

text \<open>Where no occurrence of the trigger is followed by a character of the set, nothing changes.\<close>

lemma strip_after_fixed:
  assumes "\<forall>c \<in> C. \<not> sublist (t @ [c]) s"
  shows "strip_after t C s = s"
  using assms
proof (induction "length s" arbitrary: s rule: less_induct)
  case less
  show ?case
  proof (cases "t = []")
    case True
    then show ?thesis
      by simp
  next
    case t: False
    show ?thesis
    proof (cases "prefix t s")
      case True
      define r where "r = drop (length t) s"
      from True have s: "s = t @ r"
        unfolding r_def by (metis append_take_drop_id take_eq_iff_prefix)
      have "r = [] \<or> hd r \<notin> C"
      proof (cases r)
        case Nil
        then show ?thesis by simp
      next
        case (Cons y ys)
        with s have "sublist (t @ [y]) s"
          unfolding sublist_def by (intro exI [of _ "[]"] exI [of _ ys]) simp
        with less.prems have "y \<notin> C"
          by blast
        with Cons show ?thesis
          by simp
      qed
      then have d: "dropWhile (\<lambda>c. c \<in> C) r = r"
        by (rule dropWhile_id_hd)
      from t s have "length r < length s"
        by (cases t) simp_all
      moreover have "\<forall>c \<in> C. \<not> sublist (t @ [c]) r"
      proof (intro ballI notI)
        fix c assume "c \<in> C" and "sublist (t @ [c]) r"
        moreover have "sublist r s"
          unfolding r_def by (rule suffix_imp_sublist) (rule suffix_drop)
        ultimately have "sublist (t @ [c]) s"
          using sublist_mono_right by blast
        with less.prems \<open>c \<in> C\<close> show False
          by blast
      qed
      ultimately have "strip_after t C r = r"
        by (rule less.hyps)
      with strip_after_prefix [OF t True, of C] d s show ?thesis
        unfolding r_def by simp
    next
      case np: False
      show ?thesis
      proof (cases s)
        case Nil
        then show ?thesis by simp
      next
        case (Cons x xs)
        then have "length xs < length s"
          by simp
        moreover have "\<forall>c \<in> C. \<not> sublist (t @ [c]) xs"
          using less.prems Cons by (simp add: sublist_Cons_right)
        ultimately have "strip_after t C xs = xs"
          by (rule less.hyps)
        with np Cons t show ?thesis
          by (simp add: strip_after_Cons)
      qed
    qed
  qed
qed

subsection \<open>The reflection rewrite\<close>

lemma no_suffix_prefix:
  assumes "list_all (\<lambda>k. \<not> prefix (drop k t) u) [n..<length t]"
  shows "\<forall>w. w \<noteq> [] \<and> suffix w t \<and> length w + n \<le> length t \<longrightarrow> \<not> prefix w u"
proof (intro allI impI notI)
  fix w
  assume w: "w \<noteq> [] \<and> suffix w t \<and> length w + n \<le> length t" and p: "prefix w u"
  from w obtain zs where t: "t = zs @ w"
    by (auto simp: suffix_def)
  then have d: "drop (length zs) t = w"
    by simp
  from w t have "n \<le> length zs" and "length zs < length t"
    by simp_all
  with assms have "\<not> prefix (drop (length zs) t) u"
    by (simp add: list_all_iff)
  with d p show False
    by simp
qed

lemma no_border:
  assumes "list_all (\<lambda>k. \<not> prefix (drop k t) t) [1..<length t]"
  shows "\<forall>w. w \<noteq> [] \<and> w \<noteq> t \<and> suffix w t \<longrightarrow> \<not> prefix w t"
proof (intro allI impI)
  fix w
  assume w: "w \<noteq> [] \<and> w \<noteq> t \<and> suffix w t"
  then obtain zs where t: "t = zs @ w"
    by (auto simp: suffix_def)
  with w have "zs \<noteq> []"
    by auto
  then have "1 \<le> length zs"
    by (cases zs) simp_all
  with t have "length w + 1 \<le> length t"
    by simp
  with w no_suffix_prefix [OF assms] show "\<not> prefix w t"
    by blast
qed

lemma no_overlap:
  assumes "list_all (\<lambda>k. \<not> prefix (drop k t) u) [0..<length t]"
  shows "\<forall>w. w \<noteq> [] \<and> suffix w t \<longrightarrow> \<not> prefix w u"
proof (intro allI impI)
  fix w
  assume w: "w \<noteq> [] \<and> suffix w t"
  then have "length w + 0 \<le> length t"
    by (simp add: suffix_length_le)
  with w no_suffix_prefix [OF assms] show "\<not> prefix w u"
    by blast
qed

text \<open>
  Three passes in a row, for triggers that neither overlap themselves nor one another: the
  result of the three is changed by none of them.
\<close>

lemma strip_after_three_idem:
  assumes ne: "t1 \<noteq> []" "t2 \<noteq> []" "t3 \<noteq> []"
    and b1: "\<forall>w. w \<noteq> [] \<and> w \<noteq> t1 \<and> suffix w t1 \<longrightarrow> \<not> prefix w t1"
    and b2: "\<forall>w. w \<noteq> [] \<and> w \<noteq> t2 \<and> suffix w t2 \<longrightarrow> \<not> prefix w t2"
    and b3: "\<forall>w. w \<noteq> [] \<and> w \<noteq> t3 \<and> suffix w t3 \<longrightarrow> \<not> prefix w t3"
    and s21: "\<not> sublist t2 t1" and o21: "\<forall>w. w \<noteq> [] \<and> suffix w t2 \<longrightarrow> \<not> prefix w t1"
    and s31: "\<not> sublist t3 t1" and o31: "\<forall>w. w \<noteq> [] \<and> suffix w t3 \<longrightarrow> \<not> prefix w t1"
    and s32: "\<not> sublist t3 t2" and o32: "\<forall>w. w \<noteq> [] \<and> suffix w t3 \<longrightarrow> \<not> prefix w t2"
  shows "strip_after t3 C (strip_after t2 C (strip_after t1 C
           (strip_after t3 C (strip_after t2 C (strip_after t1 C s))))) =
         strip_after t3 C (strip_after t2 C (strip_after t1 C s))"
proof -
  define a where "a = strip_after t1 C s"
  define b where "b = strip_after t2 C a"
  define r where "r = strip_after t3 C b"
  have a1: "\<forall>c \<in> C. \<not> sublist (t1 @ [c]) a"
  proof (intro ballI)
    fix c
    assume "c \<in> C"
    with ne(1) b1 show "\<not> sublist (t1 @ [c]) a"
      unfolding a_def by (rule strip_after_clean)
  qed
  have b1': "\<forall>c \<in> C. \<not> sublist (t1 @ [c]) b"
  proof (intro ballI notI)
    fix c
    assume c: "c \<in> C" and "sublist (t1 @ [c]) b"
    then have "sublist (t1 @ [c]) a"
      unfolding b_def using strip_after_keeps_clean [OF ne(2) s21 o21] by simp
    with a1 c show False
      by simp
  qed
  have r1: "\<forall>c \<in> C. \<not> sublist (t1 @ [c]) r"
  proof (intro ballI notI)
    fix c
    assume c: "c \<in> C" and "sublist (t1 @ [c]) r"
    then have "sublist (t1 @ [c]) b"
      unfolding r_def using strip_after_keeps_clean [OF ne(3) s31 o31] by simp
    with b1' c show False
      by simp
  qed
  have b2': "\<forall>c \<in> C. \<not> sublist (t2 @ [c]) b"
  proof (intro ballI)
    fix c
    assume "c \<in> C"
    with ne(2) b2 show "\<not> sublist (t2 @ [c]) b"
      unfolding b_def by (rule strip_after_clean)
  qed
  have r2: "\<forall>c \<in> C. \<not> sublist (t2 @ [c]) r"
  proof (intro ballI notI)
    fix c
    assume c: "c \<in> C" and "sublist (t2 @ [c]) r"
    then have "sublist (t2 @ [c]) b"
      unfolding r_def using strip_after_keeps_clean [OF ne(3) s32 o32] by simp
    with b2' c show False
      by simp
  qed
  have r3: "\<forall>c \<in> C. \<not> sublist (t3 @ [c]) r"
  proof (intro ballI)
    fix c
    assume "c \<in> C"
    with ne(3) b3 show "\<not> sublist (t3 @ [c]) r"
      unfolding r_def by (rule strip_after_clean)
  qed
  have "strip_after t1 C r = r"
    using r1 by (rule strip_after_fixed)
  moreover have "strip_after t2 C r = r"
    using r2 by (rule strip_after_fixed)
  moreover have "strip_after t3 C r = r"
    using r3 by (rule strip_after_fixed)
  ultimately have "strip_after t3 C (strip_after t2 C (strip_after t1 C r)) = r"
    by simp
  then show ?thesis
    unfolding r_def b_def a_def .
qed

lemma SimplifyReflectionMethodName_eq:
  "SimplifyReflectionMethodName name =
     strip_after ''sun.reflect.GeneratedSerializationConstructorAccessor''
       (set (''0123456789'' @ [CHR 0x00]))
       (strip_after ''sun.reflect.GeneratedMethodAccessor'' (set (''0123456789'' @ [CHR 0x00]))
         (strip_after ''sun.reflect.GeneratedConstructorAccessor''
           (set (''0123456789'' @ [CHR 0x00])) name))"
  unfolding SimplifyReflectionMethodName_def Let_def SimplifySuffixedName_eq ..

lemma SimplifyReflectionMethodName_idem:
  "SimplifyReflectionMethodName (SimplifyReflectionMethodName name) =
     SimplifyReflectionMethodName name"
proof -
  let ?t1 = "''sun.reflect.GeneratedConstructorAccessor''"
  let ?t2 = "''sun.reflect.GeneratedMethodAccessor''"
  let ?t3 = "''sun.reflect.GeneratedSerializationConstructorAccessor''"
  have ne: "?t1 \<noteq> []" "?t2 \<noteq> []" "?t3 \<noteq> []"
    by simp_all
  have "list_all (\<lambda>k. \<not> prefix (drop k ?t1) ?t1) [1..<length ?t1]"
    by code_simp
  then have b1: "\<forall>w. w \<noteq> [] \<and> w \<noteq> ?t1 \<and> suffix w ?t1 \<longrightarrow> \<not> prefix w ?t1"
    by (rule no_border)
  have "list_all (\<lambda>k. \<not> prefix (drop k ?t2) ?t2) [1..<length ?t2]"
    by code_simp
  then have b2: "\<forall>w. w \<noteq> [] \<and> w \<noteq> ?t2 \<and> suffix w ?t2 \<longrightarrow> \<not> prefix w ?t2"
    by (rule no_border)
  have "list_all (\<lambda>k. \<not> prefix (drop k ?t3) ?t3) [1..<length ?t3]"
    by code_simp
  then have b3: "\<forall>w. w \<noteq> [] \<and> w \<noteq> ?t3 \<and> suffix w ?t3 \<longrightarrow> \<not> prefix w ?t3"
    by (rule no_border)
  have s21: "\<not> sublist ?t2 ?t1"
    by code_simp
  have s31: "\<not> sublist ?t3 ?t1"
    by code_simp
  have s32: "\<not> sublist ?t3 ?t2"
    by code_simp
  have "list_all (\<lambda>k. \<not> prefix (drop k ?t2) ?t1) [0..<length ?t2]"
    by code_simp
  then have o21: "\<forall>w. w \<noteq> [] \<and> suffix w ?t2 \<longrightarrow> \<not> prefix w ?t1"
    by (rule no_overlap)
  have "list_all (\<lambda>k. \<not> prefix (drop k ?t3) ?t1) [0..<length ?t3]"
    by code_simp
  then have o31: "\<forall>w. w \<noteq> [] \<and> suffix w ?t3 \<longrightarrow> \<not> prefix w ?t1"
    by (rule no_overlap)
  have "list_all (\<lambda>k. \<not> prefix (drop k ?t3) ?t2) [0..<length ?t3]"
    by code_simp
  then have o32: "\<forall>w. w \<noteq> [] \<and> suffix w ?t3 \<longrightarrow> \<not> prefix w ?t2"
    by (rule no_overlap)
  show ?thesis
    unfolding SimplifyReflectionMethodName_eq
    using ne b1 b2 b3 s21 o21 s31 o31 s32 o32 by (rule strip_after_three_idem)
qed

lemma SimplifyReflectionMethodName_no_trigger:
  assumes "\<not> sublist ''sun.reflect.GeneratedConstructorAccessor'' name"
    and "\<not> sublist ''sun.reflect.GeneratedMethodAccessor'' name"
    and "\<not> sublist ''sun.reflect.GeneratedSerializationConstructorAccessor'' name"
  shows "SimplifyReflectionMethodName name = name"
  unfolding SimplifyReflectionMethodName_def Let_def
    SimplifySuffixedName_no_trigger [OF assms(1)] SimplifySuffixedName_no_trigger [OF assms(2)]
  using assms(3) by (rule SimplifySuffixedName_no_trigger)

lemma SimplifyDynamicClassName_idem:
  "SimplifyDynamicClassName (SimplifyDynamicClassName name) = SimplifyDynamicClassName name"
  unfolding SimplifyDynamicClassName_def by (rule SimplifySuffixedName_idem)

lemma SimplifyDynamicClassName_no_trigger:
  assumes "\<not> sublist ''$$'' name"
  shows "SimplifyDynamicClassName name = name"
  unfolding SimplifyDynamicClassName_def using assms by (rule SimplifySuffixedName_no_trigger)

text \<open>
  C8. Each of the three rewrites gives, applied to its own result, that result again; each
  returns a name that does not contain its trigger unchanged (\<^verbatim>\<open>$$\<close> for the dynamic
  class rewrite, \<^verbatim>\<open>$$Lambda$\<close> for the lambda rewrite, the three accessor class prefixes
  for the reflection rewrite); and \<^verbatim>\<open>SimplifyFunctionName\<close> is the reflection rewrite of
  the lambda rewrite of the dynamic class rewrite of the name.
\<close>

theorem name_rewrites_idempotent:
  "SimplifyDynamicClassName (SimplifyDynamicClassName s) = SimplifyDynamicClassName s \<and>
   SimplifyLambdaName (SimplifyLambdaName s) = SimplifyLambdaName s \<and>
   SimplifyReflectionMethodName (SimplifyReflectionMethodName s) =
     SimplifyReflectionMethodName s \<and>
   (\<not> sublist ''$$'' s \<longrightarrow> SimplifyDynamicClassName s = s) \<and>
   (\<not> sublist ''$$Lambda$'' s \<longrightarrow> SimplifyLambdaName s = s) \<and>
   (\<not> sublist ''sun.reflect.GeneratedConstructorAccessor'' s \<and>
    \<not> sublist ''sun.reflect.GeneratedMethodAccessor'' s \<and>
    \<not> sublist ''sun.reflect.GeneratedSerializationConstructorAccessor'' s \<longrightarrow>
      SimplifyReflectionMethodName s = s) \<and>
   SimplifyFunctionName s =
     SimplifyReflectionMethodName (SimplifyLambdaName (SimplifyDynamicClassName s))"
proof (intro conjI impI)
  show "SimplifyDynamicClassName (SimplifyDynamicClassName s) = SimplifyDynamicClassName s"
    by (rule SimplifyDynamicClassName_idem)
  show "SimplifyLambdaName (SimplifyLambdaName s) = SimplifyLambdaName s"
    by (rule SimplifyLambdaName_idem)
  show "SimplifyReflectionMethodName (SimplifyReflectionMethodName s) =
      SimplifyReflectionMethodName s"
    by (rule SimplifyReflectionMethodName_idem)
  show "SimplifyDynamicClassName s = s" if "\<not> sublist ''$$'' s"
    using that by (rule SimplifyDynamicClassName_no_trigger)
  show "SimplifyLambdaName s = s" if "\<not> sublist ''$$Lambda$'' s"
    using that by (rule SimplifyLambdaName_no_trigger)
  show "SimplifyReflectionMethodName s = s"
    if "\<not> sublist ''sun.reflect.GeneratedConstructorAccessor'' s \<and>
        \<not> sublist ''sun.reflect.GeneratedMethodAccessor'' s \<and>
        \<not> sublist ''sun.reflect.GeneratedSerializationConstructorAccessor'' s"
    using that by (blast intro: SimplifyReflectionMethodName_no_trigger)
  show "SimplifyFunctionName s =
      SimplifyReflectionMethodName (SimplifyLambdaName (SimplifyDynamicClassName s))"
    by (rule SimplifyFunctionName_def)
qed

theorem name_rewrites_idempotent_witness:
  "\<not> sublist ''$$'' ''com.foo.Bar.run'' \<and>
   \<not> sublist ''$$Lambda$'' ''com.foo.Bar.run'' \<and>
   \<not> sublist ''sun.reflect.GeneratedConstructorAccessor'' ''com.foo.Bar.run'' \<and>
   \<not> sublist ''sun.reflect.GeneratedMethodAccessor'' ''com.foo.Bar.run'' \<and>
   \<not> sublist ''sun.reflect.GeneratedSerializationConstructorAccessor'' ''com.foo.Bar.run'' \<and>
   SimplifyDynamicClassName ''com.foo.Bar.run'' = ''com.foo.Bar.run'' \<and>
   SimplifyLambdaName ''com.foo.Bar.run'' = ''com.foo.Bar.run'' \<and>
   SimplifyReflectionMethodName ''com.foo.Bar.run'' = ''com.foo.Bar.run'' \<and>
   SimplifyDynamicClassName (SimplifyDynamicClassName ''a$$1f.b$$Lambda$1.2.c'') =
     SimplifyDynamicClassName ''a$$1f.b$$Lambda$1.2.c''"
proof -
  have h: "\<not> sublist ''$$'' ''com.foo.Bar.run''"
    "\<not> sublist ''$$Lambda$'' ''com.foo.Bar.run''"
    "\<not> sublist ''sun.reflect.GeneratedConstructorAccessor'' ''com.foo.Bar.run''"
    "\<not> sublist ''sun.reflect.GeneratedMethodAccessor'' ''com.foo.Bar.run''"
    "\<not> sublist ''sun.reflect.GeneratedSerializationConstructorAccessor'' ''com.foo.Bar.run''"
    by code_simp+
  from name_rewrites_idempotent [of "''com.foo.Bar.run''"]
    name_rewrites_idempotent [of "''a$$1f.b$$Lambda$1.2.c''"] h
  show ?thesis
    by blast
qed

section \<open>Profile builder (profile\_proto\_builder.cc)\<close>

subsection \<open>Data\<close>

text \<open>
  \<^verbatim>\<open>jint\<close> and \<^verbatim>\<open>int\<close> are 32-bit, the values of a sample are \<^verbatim>\<open>int64\<close>, and a
  \<^verbatim>\<open>jmethodID\<close> is a pointer that the builder only compares, tests against null and casts
  to \<^verbatim>\<open>uint64\<close>. A \<^verbatim>\<open>JVMPI_CallTrace\<close> is its array of frames, \<^verbatim>\<open>num_frames\<close> being the
  length of the list.
\<close>

type_synonym jint = "32 word"
type_synonym int64 = "64 word"
type_synonym jmethodID = "64 word"

record JVMPI_CallFrame =
  lineno :: jint
  method_id :: jmethodID

record ProfileStackTrace =
  trace :: "JVMPI_CallFrame list"
  metric_value :: jint

text \<open>The messages of the profile that the builder fills in.\<close>

record Line =
  Line_function_id :: nat
  Line_line :: int64

record Location =
  Location_id :: nat
  Location_address :: "64 word"
  Location_line :: "Line list"

record Sample =
  Sample_location_id :: "nat list"
  Sample_value :: "int64 list"

record LocationInfo =
  class_name :: string
  function_name :: string
  file_name :: string
  line_number :: jint

text \<open>
  The state of a \<^verbatim>\<open>ProfileProtoBuilder\<close>: the samples and locations of the profile under
  construction, the table \<^verbatim>\<open>locations_\<close> of its \<^verbatim>\<open>LocationBuilder\<close> and the table
  \<^verbatim>\<open>traces_\<close> of its \<^verbatim>\<open>TraceSamples\<close>. Both tables hold pointers into the profile; an
  element of a repeated message field never moves, so a pointer is modelled as the index of
  the element. Both are hash maps whose equality compares every field of the key and whose
  hash is a function of the same fields, so they are maps on the keys' values. A key of
  \<^verbatim>\<open>traces_\<close> borrows the caller's frame array; the model takes the array to stay as it
  was when the key was stored. Everything else that \<^verbatim>\<open>perftools::profiles::Builder\<close>
  holds (string table, function table, sample and period types) is \<open>builder_rest\<close>, of a
  type \<open>'b\<close> left open.
\<close>

record 'b ProfileProtoBuilder =
  sample :: "Sample list"
  location :: "Location list"
  builder_rest :: 'b
  locations :: "LocationInfo \<rightharpoonup> nat"
  traces :: "JVMPI_CallFrame list \<rightharpoonup> nat"

text \<open>
  What the builder calls and this file does not define: \<^verbatim>\<open>Builder::FunctionId\<close> of the
  profile library, the symbol resolver \<^verbatim>\<open>GetStackFrameElements\<close> (file, class, method,
  signature, line number of a frame), the native frame cache's \<^verbatim>\<open>GetFunctionName\<close>, the
  key under which the cache asks the \<^verbatim>\<open>LocationBuilder\<close> for a frame's location,
  \<^verbatim>\<open>SkipTopNativeFrames\<close> and the constant \<^verbatim>\<open>kNativeFrameLineNum\<close>. They are parameters.
\<close>

record 'b Env =
  FunctionId :: "'b \<Rightarrow> string \<Rightarrow> string \<Rightarrow> string \<Rightarrow> int \<Rightarrow> nat \<times> 'b"
  GetStackFrameElements :: "JVMPI_CallFrame \<Rightarrow> string \<times> string \<times> string \<times> string \<times> jint"
  GetFunctionName :: "JVMPI_CallFrame \<Rightarrow> string"
  NativeLocationInfo :: "JVMPI_CallFrame \<Rightarrow> LocationInfo"
  SkipTopNativeFrames :: "JVMPI_CallFrame list \<Rightarrow> nat"
  kNativeFrameLineNum :: jint

subsection \<open>Keys\<close>

definition LocationInfoEquals :: "LocationInfo \<Rightarrow> LocationInfo \<Rightarrow> bool" where
  "LocationInfoEquals info1 info2 \<longleftrightarrow>
     class_name info1 = class_name info2 \<and>
     function_name info1 = function_name info2 \<and>
     file_name info1 = file_name info2 \<and>
     line_number info1 = line_number info2"


lemma LocationInfoEquals_iff: "LocationInfoEquals info1 info2 \<longleftrightarrow> info1 = info2"
  by (cases info1, cases info2) (auto simp: LocationInfoEquals_def)


subsection \<open>Samples\<close>

definition kCount :: nat where
  "kCount = 0"

definition kMetric :: nat where
  "kMetric = 1"

text \<open>\<^verbatim>\<open>profile->add_sample()\<close>: a new, empty sample at the end; its index is the old size.\<close>

definition add_sample :: "'b ProfileProtoBuilder \<Rightarrow> 'b ProfileProtoBuilder" where
  "add_sample st = st\<lparr>sample := sample st @ [\<lparr>Sample_location_id = [], Sample_value = []\<rparr>]\<rparr>"

definition add_location_id :: "'b ProfileProtoBuilder \<Rightarrow> nat \<Rightarrow> nat \<Rightarrow> 'b ProfileProtoBuilder" where
  "add_location_id st s lid =
     st\<lparr>sample := (sample st)[s := (sample st ! s)
        \<lparr>Sample_location_id := Sample_location_id (sample st ! s) @ [lid]\<rparr>]\<rparr>"

definition InitSampleValues :: "'b ProfileProtoBuilder \<Rightarrow> nat \<Rightarrow> jint \<Rightarrow> jint \<Rightarrow> 'b ProfileProtoBuilder" where
  "InitSampleValues st s count metric =
     st\<lparr>sample := (sample st)[s := (sample st ! s)
        \<lparr>Sample_value := Sample_value (sample st ! s) @ [scast count, scast metric]\<rparr>]\<rparr>"

definition set_value :: "Sample \<Rightarrow> nat \<Rightarrow> int64 \<Rightarrow> Sample" where
  "set_value smp k v = smp\<lparr>Sample_value := (Sample_value smp)[k := v]\<rparr>"

definition UpdateSampleValues :: "'b ProfileProtoBuilder \<Rightarrow> nat \<Rightarrow> jint \<Rightarrow> jint \<Rightarrow> 'b ProfileProtoBuilder" where
  "UpdateSampleValues st s count size_v =
     (let smp1 = set_value (sample st ! s) kCount (Sample_value (sample st ! s) ! kCount + scast count);
          smp2 = set_value smp1 kMetric (Sample_value smp1 ! kMetric + scast size_v)
      in st\<lparr>sample := (sample st)[s := smp2]\<rparr>)"

definition SampleFor :: "'b ProfileProtoBuilder \<Rightarrow> JVMPI_CallFrame list \<Rightarrow> nat option" where
  "SampleFor st tr = traces st tr"

definition TraceSamples_Add :: "'b ProfileProtoBuilder \<Rightarrow> JVMPI_CallFrame list \<Rightarrow> nat \<Rightarrow> 'b ProfileProtoBuilder" where
  "TraceSamples_Add st tr s = st\<lparr>traces := (traces st)(tr \<mapsto> s)\<rparr>"

subsection \<open>Locations\<close>

definition LocationFor ::
  "'b Env \<Rightarrow> 'b ProfileProtoBuilder \<Rightarrow> string \<Rightarrow> string \<Rightarrow> string \<Rightarrow> jint \<Rightarrow> nat \<times> 'b ProfileProtoBuilder" where
  "LocationFor env st cname fname file lnum =
     (let info = \<lparr>class_name = cname, function_name = fname, file_name = file, line_number = lnum\<rparr>
      in case locations st info of
           Some l \<Rightarrow> (l, st)
         | None \<Rightarrow>
             let location_id = length (location st) + 1;
                 l = length (location st);
                 new = \<lparr>Location_id = location_id, Location_address = 0, Location_line = []\<rparr>;
                 (function_id, rest) = FunctionId env (builder_rest st) fname '''' file 0;
                 line = \<lparr>Line_function_id = function_id, Line_line = scast lnum\<rparr>
             in (l, st\<lparr>location := location st @ [new\<lparr>Location_line := [line]\<rparr>],
                       locations := (locations st)(info \<mapsto> l),
                       builder_rest := rest\<rparr>))"

definition set_address :: "'b ProfileProtoBuilder \<Rightarrow> nat \<Rightarrow> 64 word \<Rightarrow> 'b ProfileProtoBuilder" where
  "set_address st l a = st\<lparr>location := (location st)[l := (location st ! l)\<lparr>Location_address := a\<rparr>]\<rparr>"

text \<open>
  Modelled from the spec: \<^verbatim>\<open>ProfileFrameCache::GetLocation\<close>, which is not among the
  source files. The spec has the native-frame resolver hand back a Location for the frame;
  it is given the builder's \<^verbatim>\<open>LocationBuilder\<close>, whose one operation is \<^verbatim>\<open>LocationFor\<close>,
  so the model is a call of \<^verbatim>\<open>LocationFor\<close> with the key that the resolver chooses.
\<close>

definition GetLocation :: "'b Env \<Rightarrow> JVMPI_CallFrame \<Rightarrow> 'b ProfileProtoBuilder \<Rightarrow> nat \<times> 'b ProfileProtoBuilder" where
  "GetLocation env jvm_frame st =
     (let info = NativeLocationInfo env jvm_frame
      in LocationFor env st (class_name info) (function_name info) (file_name info) (line_number info))"

subsection \<open>Frames\<close>

text \<open>
  Modelled from the spec: the class \<^verbatim>\<open>StackState\<close>, declared in a header that is not
  among the source files. The spec (section 4.6) gives it the states Initial,
  InNativeRun(name) and InJavaRun and a skip marker: a managed frame moves to InJavaRun and
  clears the marker; a native frame whose name is the current InNativeRun name stays there
  and sets the marker; any other native frame moves to InNativeRun of its name and is kept.
\<close>

datatype RunState = Initial | InNativeRun string | InJavaRun

record StackState =
  run_state :: RunState
  skip :: bool

definition StackState_new :: StackState where
  "StackState_new = \<lparr>run_state = Initial, skip = False\<rparr>"

definition JavaFrame :: "StackState \<Rightarrow> StackState" where
  "JavaFrame s = \<lparr>run_state = InJavaRun, skip = False\<rparr>"

definition NativeFrame :: "string \<Rightarrow> StackState \<Rightarrow> StackState" where
  "NativeFrame name s =
     (if run_state s = InNativeRun name then s\<lparr>skip := True\<rparr>
      else \<lparr>run_state = InNativeRun name, skip = False\<rparr>)"

definition SkipFrame :: "StackState \<Rightarrow> bool" where
  "SkipFrame s = skip s"

definition AddJavaInfo ::
  "'b Env \<Rightarrow> JVMPI_CallFrame \<Rightarrow> nat \<Rightarrow> 'b ProfileProtoBuilder \<times> StackState \<Rightarrow>
   'b ProfileProtoBuilder \<times> StackState" where
  "AddJavaInfo env jvm_frame s = (\<lambda>(st, stack_state).
     let stack_state1 = JavaFrame stack_state in
     if method_id jvm_frame = 0 then
       (case LocationFor env st '''' ''Unknown method'' '''' 0 of
          (l, st1) \<Rightarrow> (add_location_id st1 s (Location_id (location st1 ! l)), stack_state1))
     else
       (case GetStackFrameElements env jvm_frame of
          (file, cname, method_name, signature, lnum) \<Rightarrow>
            let signature1 = FixMethodParameters signature;
                full_method_name = cname @ ''.'' @ method_name @ signature1
            in (case LocationFor env st cname full_method_name file lnum of
                  (l, st1) \<Rightarrow>
                    (add_location_id st1 s (Location_id (location st1 ! l)), stack_state1))))"

definition AddNativeInfo ::
  "'b Env \<Rightarrow> JVMPI_CallFrame \<Rightarrow> nat \<Rightarrow> 'b ProfileProtoBuilder \<times> StackState \<Rightarrow>
   'b ProfileProtoBuilder \<times> StackState" where
  "AddNativeInfo env jvm_frame s = (\<lambda>(st, stack_state).
     let fname = GetFunctionName env jvm_frame in
     (case GetLocation env jvm_frame st of
        (l, st1) \<Rightarrow>
          let stack_state1 = NativeFrame fname stack_state in
          if \<not> SkipFrame stack_state1 then
            let st2 = set_address st1 l (method_id jvm_frame)
            in (add_location_id st2 s (Location_id (location st2 ! l)), stack_state1)
          else (st1, stack_state1)))"

text \<open>The loop over the frames of a new trace, from \<^verbatim>\<open>first_frame\<close> on.\<close>

fun AddFrames ::
  "'b Env \<Rightarrow> nat \<Rightarrow> JVMPI_CallFrame list \<Rightarrow> 'b ProfileProtoBuilder \<times> StackState \<Rightarrow>
   'b ProfileProtoBuilder \<times> StackState" where
  "AddFrames env s [] acc = acc"
| "AddFrames env s (jvm_frame # frames) acc =
     AddFrames env s frames
       (if lineno jvm_frame = kNativeFrameLineNum env then AddNativeInfo env jvm_frame s acc
        else AddJavaInfo env jvm_frame s acc)"

definition AddTrace :: "'b Env \<Rightarrow> 'b ProfileProtoBuilder \<Rightarrow> ProfileStackTrace \<Rightarrow> jint \<Rightarrow> 'b ProfileProtoBuilder" where
  "AddTrace env st tr count =
     (case SampleFor st (trace tr) of
        Some s \<Rightarrow> UpdateSampleValues st s count (metric_value tr)
      | None \<Rightarrow>
          let s = length (sample st);
              st1 = add_sample st;
              st2 = TraceSamples_Add st1 (trace tr) s;
              st3 = InitSampleValues st2 s count (metric_value tr);
              first_frame = SkipTopNativeFrames env (trace tr)
          in fst (AddFrames env s (drop first_frame (trace tr)) (st3, StackState_new)))"

definition AddArtificialTrace :: "'b Env \<Rightarrow> 'b ProfileProtoBuilder \<Rightarrow> string \<Rightarrow> jint \<Rightarrow> jint \<Rightarrow> 'b ProfileProtoBuilder" where
  "AddArtificialTrace env st name count sampling_rate =
     (case LocationFor env st name name '''' (- 1) of
        (l, st1) \<Rightarrow>
          let s = length (sample st1);
              st2 = add_sample st1;
              st3 = add_location_id st2 s (Location_id (location st2 ! l))
          in InitSampleValues st3 s count (count * sampling_rate))"

text \<open>A builder as its constructor leaves it: no sample, no location, both tables empty.\<close>

definition new_builder :: "'b \<Rightarrow> 'b ProfileProtoBuilder" where
  "new_builder rest =
     \<lparr>sample = [], location = [], builder_rest = rest, locations = Map.empty, traces = Map.empty\<rparr>"

text \<open>
  An environment for examples: every function gets id 1, every managed frame resolves to
  \<^verbatim>\<open>Foo.bar(I)V\<close> in \<^verbatim>\<open>Foo.java\<close> at the frame's line, a native frame is named after the
  low bit of its address, and no leading frame is skipped.
\<close>

definition example_env :: "unit Env" where
  "example_env =
     \<lparr>FunctionId = (\<lambda>rest name system_name file start_line. (1, rest)),
      GetStackFrameElements = (\<lambda>jvm_frame. (''Foo.java'', ''Foo'', ''bar'', ''(I)V'', lineno jvm_frame)),
      GetFunctionName = (\<lambda>jvm_frame. if even (method_id jvm_frame) then ''stub'' else ''helper''),
      NativeLocationInfo = (\<lambda>jvm_frame.
         \<lparr>class_name = [],
          function_name = (if even (method_id jvm_frame) then ''stub'' else ''helper''),
          file_name = [], line_number = 0\<rparr>),
      SkipTopNativeFrames = (\<lambda>tr. 0),
      kNativeFrameLineNum = - 99\<rparr>"

subsection \<open>Invariant\<close>

text \<open>
  What holds of every builder state that the operations produce: a pointer stored in
  \<^verbatim>\<open>locations_\<close> points into the location list, the location at index \<open>l\<close> has id
  \<open>l + 1\<close>, no two keys share a pointer, and a pointer stored in \<^verbatim>\<open>traces_\<close> points to a
  sample with its two values.
\<close>

definition builder_inv :: "'b ProfileProtoBuilder \<Rightarrow> bool" where
  "builder_inv st \<longleftrightarrow>
     (\<forall>info l. locations st info = Some l \<longrightarrow> l < length (location st)) \<and>
     (\<forall>l. l < length (location st) \<longrightarrow> Location_id (location st ! l) = l + 1) \<and>
     (\<forall>info1 info2 l. locations st info1 = Some l \<and> locations st info2 = Some l \<longrightarrow> info1 = info2) \<and>
     (\<forall>tr s. traces st tr = Some s \<longrightarrow>
        s < length (sample st) \<and> length (Sample_value (sample st ! s)) = 2)"

lemma builder_inv_new: "builder_inv (new_builder rest)"
  by (simp add: builder_inv_def new_builder_def)

lemma LocationFor_found:
  assumes "locations st \<lparr>class_name = c, function_name = f, file_name = n, line_number = lnum\<rparr> = Some l"
  shows "LocationFor env st c f n lnum = (l, st)"
  using assms by (simp add: LocationFor_def)

lemma LocationFor_new:
  assumes "locations st \<lparr>class_name = c, function_name = f, file_name = n, line_number = lnum\<rparr> = None"
  shows "\<exists>rest line. LocationFor env st c f n lnum =
     (length (location st),
      st\<lparr>location := location st @
            [\<lparr>Location_id = length (location st) + 1, Location_address = 0, Location_line = [line]\<rparr>],
         locations := (locations st)
            (\<lparr>class_name = c, function_name = f, file_name = n, line_number = lnum\<rparr> \<mapsto> length (location st)),
         builder_rest := rest\<rparr>)"
proof -
  obtain fid rest where "FunctionId env (builder_rest st) f [] n 0 = (fid, rest)"
    by (cases "FunctionId env (builder_rest st) f [] n 0")
  with assms have "LocationFor env st c f n lnum =
     (length (location st),
      st\<lparr>location := location st @
            [\<lparr>Location_id = length (location st) + 1, Location_address = 0,
              Location_line = [\<lparr>Line_function_id = fid, Line_line = scast lnum\<rparr>]\<rparr>],
         locations := (locations st)
            (\<lparr>class_name = c, function_name = f, file_name = n, line_number = lnum\<rparr> \<mapsto> length (location st)),
         builder_rest := rest\<rparr>)"
    by (simp add: LocationFor_def Let_def)
  then show ?thesis
    by blast
qed

lemma LocationFor_props:
  assumes inv: "builder_inv st" and r: "LocationFor env st c f n lnum = (l, st')"
  shows "builder_inv st'"
    and "locations st' \<lparr>class_name = c, function_name = f, file_name = n, line_number = lnum\<rparr> = Some l"
    and "l < length (location st')"
    and "locations st \<subseteq>\<^sub>m locations st'"
    and "sample st' = sample st"
    and "traces st' = traces st"
    and "length (location st) \<le> length (location st')"
    and "\<forall>i. i < length (location st) \<longrightarrow> location st' ! i = location st ! i"
proof -
  let ?info = "\<lparr>class_name = c, function_name = f, file_name = n, line_number = lnum\<rparr>"
  have "builder_inv st' \<and> locations st' ?info = Some l \<and> l < length (location st') \<and>
      locations st \<subseteq>\<^sub>m locations st' \<and> sample st' = sample st \<and> traces st' = traces st \<and>
      length (location st) \<le> length (location st') \<and>
      (\<forall>i. i < length (location st) \<longrightarrow> location st' ! i = location st ! i)"
  proof (cases "locations st ?info")
    case (Some l0)
    with r have "l = l0" "st' = st"
      by (simp_all add: LocationFor_found)
    with Some inv show ?thesis
      by (simp add: builder_inv_def)
  next
    case None
    from LocationFor_new [OF None, of env] r obtain rest line where
      l: "l = length (location st)" and
      st': "st' = st\<lparr>location := location st @
            [\<lparr>Location_id = length (location st) + 1, Location_address = 0, Location_line = [line]\<rparr>],
         locations := (locations st)(?info \<mapsto> length (location st)),
         builder_rest := rest\<rparr>"
      by auto
    have fresh: "locations st info \<noteq> Some (length (location st))" for info
      using inv by (auto simp: builder_inv_def)
    have "builder_inv st'"
      unfolding builder_inv_def
    proof (intro conjI allI impI)
      fix info l0 assume "locations st' info = Some l0"
      then show "l0 < length (location st')"
        using inv by (auto simp: st' builder_inv_def less_Suc_eq split: if_splits)
    next
      fix l0 assume "l0 < length (location st')"
      then show "Location_id (location st' ! l0) = l0 + 1"
        using inv by (auto simp: st' builder_inv_def nth_append less_Suc_eq)
    next
      fix info1 info2 l0
      assume "locations st' info1 = Some l0 \<and> locations st' info2 = Some l0"
      then show "info1 = info2"
        using inv fresh by (auto simp: st' builder_inv_def split: if_splits)
    next
      fix tr s assume "traces st' tr = Some s"
      then show "s < length (sample st')"
        using inv by (simp add: st' builder_inv_def)
    next
      fix tr s assume "traces st' tr = Some s"
      then show "length (Sample_value (sample st' ! s)) = 2"
        using inv by (simp add: st' builder_inv_def)
    qed
    moreover have "locations st \<subseteq>\<^sub>m locations st'"
      using None by (auto simp: st' map_le_def)
    ultimately show ?thesis
      by (simp add: st' l nth_append)
  qed
  then show "builder_inv st'"
    and "locations st' ?info = Some l"
    and "l < length (location st')"
    and "locations st \<subseteq>\<^sub>m locations st'"
    and "sample st' = sample st"
    and "traces st' = traces st"
    and "length (location st) \<le> length (location st')"
    and "\<forall>i. i < length (location st) \<longrightarrow> location st' ! i = location st ! i"
    by blast+
qed

lemma builder_inv_id:
  "builder_inv st \<Longrightarrow> locations st info = Some l \<Longrightarrow> Location_id (location st ! l) = l + 1"
  by (simp add: builder_inv_def)

text \<open>Changes to the samples that keep the invariant.\<close>

lemma builder_inv_samples:
  assumes "builder_inv st"
    and "length smps = length (sample st)"
    and "\<forall>i. i < length smps \<longrightarrow> Sample_value (smps ! i) = Sample_value (sample st ! i)"
  shows "builder_inv (st\<lparr>sample := smps\<rparr>)"
  using assms by (simp add: builder_inv_def)

lemma nth_update_Sample_location_id:
  "Sample_value (smps[s := (smps ! s)\<lparr>Sample_location_id := ids\<rparr>] ! i) = Sample_value (smps ! i)"
  by (cases "s < length smps"; cases "i = s") (simp_all add: list_update_beyond)

lemma nth_update_Location_address:
  "Location_id (locs[l := (locs ! l)\<lparr>Location_address := a\<rparr>] ! i) = Location_id (locs ! i)"
  by (cases "l < length locs"; cases "i = l") (simp_all add: list_update_beyond)

lemma builder_inv_add_location_id:
  "builder_inv st \<Longrightarrow> builder_inv (add_location_id st s lid)"
  unfolding add_location_id_def
  by (rule builder_inv_samples) (simp_all add: nth_update_Sample_location_id)

lemma builder_inv_set_address:
  assumes "builder_inv st"
  shows "builder_inv (set_address st l a)"
  using assms by (simp add: builder_inv_def set_address_def nth_update_Location_address)

subsection \<open>Arithmetic of the sample values\<close>




subsection \<open>Artificial traces\<close>

lemma AddArtificialTrace_eq:
  assumes inv: "builder_inv st"
    and r: "LocationFor env st name name [] (- 1) = (l, st1)"
  shows "AddArtificialTrace env st name count sampling_rate =
     st1\<lparr>sample := sample st @
        [\<lparr>Sample_location_id = [l + 1],
          Sample_value = [scast count, scast (count * sampling_rate)]\<rparr>]\<rparr>"
proof -
  from LocationFor_props [OF inv r]
  have "builder_inv st1" "l < length (location st1)" "sample st1 = sample st"
      "locations st1 \<lparr>class_name = name, function_name = name, file_name = [], line_number = - 1\<rparr> = Some l"
    by simp_all
  moreover from this have "Location_id (location st1 ! l) = l + 1"
    by (simp add: builder_inv_id)
  ultimately show ?thesis
    using r
    by (simp add: AddArtificialTrace_def add_sample_def add_location_id_def InitSampleValues_def
        Let_def)
qed

lemma builder_inv_append_sample:
  assumes "builder_inv st"
  shows "builder_inv (st\<lparr>sample := sample st @ [smp]\<rparr>)"
proof -
  have "s < length (sample st) + 1 \<and> length (Sample_value ((sample st @ [smp]) ! s)) = 2"
    if "traces st tr = Some s" for tr s
  proof -
    from assms that have "s < length (sample st)" "length (Sample_value (sample st ! s)) = 2"
      unfolding builder_inv_def by blast+
    then show ?thesis
      by (simp add: nth_append)
  qed
  with assms show ?thesis
    by (simp add: builder_inv_def)
qed

lemma AddArtificialTrace_inv:
  assumes "builder_inv st"
  shows "builder_inv (AddArtificialTrace env st name count sampling_rate)"
    and "locations st \<subseteq>\<^sub>m locations (AddArtificialTrace env st name count sampling_rate)"
proof -
  obtain l st1 where r: "LocationFor env st name name [] (- 1) = (l, st1)"
    by (cases "LocationFor env st name name [] (- 1)")
  note p = LocationFor_props [OF assms r]
  from p(1) have "builder_inv (st1\<lparr>sample := sample st1 @
        [\<lparr>Sample_location_id = [l + 1],
          Sample_value = [scast count, scast (count * sampling_rate)]\<rparr>]\<rparr>)"
    by (rule builder_inv_append_sample)
  with p(5) show "builder_inv (AddArtificialTrace env st name count sampling_rate)"
    by (simp add: AddArtificialTrace_eq [OF assms r])
  from p(4) show "locations st \<subseteq>\<^sub>m locations (AddArtificialTrace env st name count sampling_rate)"
    by (simp add: AddArtificialTrace_eq [OF assms r])
qed



subsection \<open>What processing a frame keeps\<close>

text \<open>
  Processing the frames of a trace for the sample at index \<open>s\<close> keeps the invariant, only
  adds keys to \<^verbatim>\<open>locations_\<close>, leaves \<^verbatim>\<open>traces_\<close> and the number of samples as they are,
  and changes no sample but the one at \<open>s\<close>, of which it keeps the values.
\<close>

definition frame_step :: "nat \<Rightarrow> 'b ProfileProtoBuilder \<Rightarrow> 'b ProfileProtoBuilder \<Rightarrow> bool" where
  "frame_step s st st' \<longleftrightarrow>
     builder_inv st' \<and>
     locations st \<subseteq>\<^sub>m locations st' \<and>
     traces st' = traces st \<and>
     length (sample st') = length (sample st) \<and>
     length (location st) \<le> length (location st') \<and>
     (\<forall>i. Sample_value (sample st' ! i) = Sample_value (sample st ! i)) \<and>
     (\<forall>i. i \<noteq> s \<longrightarrow> sample st' ! i = sample st ! i)"

lemma frame_step_refl: "builder_inv st \<Longrightarrow> frame_step s st st"
  by (simp add: frame_step_def)

lemma frame_step_trans:
  assumes "frame_step s st1 st2" and "frame_step s st2 st3"
  shows "frame_step s st1 st3"
  using assms unfolding frame_step_def
  by (auto intro: map_le_trans)

lemma frame_step_LocationFor:
  assumes "builder_inv st" and "LocationFor env st c f n lnum = (l, st')"
  shows "frame_step s st st'"
  using LocationFor_props [OF assms] by (simp add: frame_step_def)

lemma frame_step_add_location_id:
  assumes "builder_inv st"
  shows "frame_step s st (add_location_id st s lid)"
proof -
  have "builder_inv (add_location_id st s lid)"
    using assms by (rule builder_inv_add_location_id)
  then show ?thesis
    by (simp add: frame_step_def add_location_id_def nth_update_Sample_location_id)
qed

lemma frame_step_set_address:
  assumes "builder_inv st"
  shows "frame_step s st (set_address st l a)"
proof -
  have "builder_inv (set_address st l a)"
    using assms by (rule builder_inv_set_address)
  then show ?thesis
    by (simp add: frame_step_def set_address_def)
qed

lemma AddJavaInfo_eq:
  obtains c f n lnum where
    "AddJavaInfo env jvm_frame s (st, stack_state) =
       (add_location_id (snd (LocationFor env st c f n lnum)) s
          (Location_id (location (snd (LocationFor env st c f n lnum)) !
             fst (LocationFor env st c f n lnum))),
        JavaFrame stack_state)"
proof (cases "method_id jvm_frame = 0")
  case True
  then have "AddJavaInfo env jvm_frame s (st, stack_state) =
       (add_location_id (snd (LocationFor env st [] ''Unknown method'' [] 0)) s
          (Location_id (location (snd (LocationFor env st [] ''Unknown method'' [] 0)) !
             fst (LocationFor env st [] ''Unknown method'' [] 0))),
        JavaFrame stack_state)"
    by (simp add: AddJavaInfo_def Let_def split_beta)
  then show ?thesis
    by (rule that)
next
  case False
  obtain fl cname method_name signature lnum where
    g: "GetStackFrameElements env jvm_frame = (fl, cname, method_name, signature, lnum)"
    by (cases "GetStackFrameElements env jvm_frame") auto
  let ?f = "cname @ ''.'' @ method_name @ FixMethodParameters signature"
  from False g have "AddJavaInfo env jvm_frame s (st, stack_state) =
       (add_location_id (snd (LocationFor env st cname ?f fl lnum)) s
          (Location_id (location (snd (LocationFor env st cname ?f fl lnum)) !
             fst (LocationFor env st cname ?f fl lnum))),
        JavaFrame stack_state)"
    by (simp add: AddJavaInfo_def Let_def split_beta)
  then show ?thesis
    by (rule that)
qed

lemma AddJavaInfo_frame_step:
  assumes "builder_inv st"
  shows "frame_step s st (fst (AddJavaInfo env jvm_frame s (st, stack_state)))"
proof -
  obtain c f n lnum where e: "AddJavaInfo env jvm_frame s (st, stack_state) =
       (add_location_id (snd (LocationFor env st c f n lnum)) s
          (Location_id (location (snd (LocationFor env st c f n lnum)) !
             fst (LocationFor env st c f n lnum))),
        JavaFrame stack_state)"
    by (rule AddJavaInfo_eq)
  obtain l st1 where r: "LocationFor env st c f n lnum = (l, st1)"
    by (cases "LocationFor env st c f n lnum")
  have 1: "frame_step s st st1"
    using assms r by (rule frame_step_LocationFor)
  then have "builder_inv st1"
    by (simp add: frame_step_def)
  then have "frame_step s st1 (add_location_id st1 s (Location_id (location st1 ! l)))"
    by (rule frame_step_add_location_id)
  with 1 have "frame_step s st (add_location_id st1 s (Location_id (location st1 ! l)))"
    by (rule frame_step_trans)
  then show ?thesis
    by (simp add: e r)
qed

lemma AddNativeInfo_eq:
  assumes "GetLocation env jvm_frame st = (l, st1)"
  shows "AddNativeInfo env jvm_frame s (st, stack_state) =
     (if \<not> SkipFrame (NativeFrame (GetFunctionName env jvm_frame) stack_state)
      then add_location_id (set_address st1 l (method_id jvm_frame)) s
             (Location_id (location (set_address st1 l (method_id jvm_frame)) ! l))
      else st1,
      NativeFrame (GetFunctionName env jvm_frame) stack_state)"
  using assms by (simp add: AddNativeInfo_def Let_def)

lemma AddNativeInfo_frame_step:
  assumes "builder_inv st"
  shows "frame_step s st (fst (AddNativeInfo env jvm_frame s (st, stack_state)))"
proof -
  obtain l st1 where r: "GetLocation env jvm_frame st = (l, st1)"
    by (cases "GetLocation env jvm_frame st")
  then have 1: "frame_step s st st1"
    using assms unfolding GetLocation_def Let_def by (rule frame_step_LocationFor [rotated])
  then have i1: "builder_inv st1"
    by (simp add: frame_step_def)
  let ?st2 = "set_address st1 l (method_id jvm_frame)"
  have 2: "frame_step s st1 ?st2"
    using i1 by (rule frame_step_set_address)
  then have "builder_inv ?st2"
    by (simp add: frame_step_def)
  then have "frame_step s ?st2 (add_location_id ?st2 s (Location_id (location ?st2 ! l)))"
    by (rule frame_step_add_location_id)
  with 1 2 have "frame_step s st (add_location_id ?st2 s (Location_id (location ?st2 ! l)))"
    by (blast intro: frame_step_trans)
  with 1 show ?thesis
    by (simp add: AddNativeInfo_eq [OF r])
qed

lemma AddFrames_frame_step:
  assumes "builder_inv st"
  shows "frame_step s st (fst (AddFrames env s frames (st, stack_state)))"
  using assms
proof (induction frames arbitrary: st stack_state)
  case Nil
  then show ?case
    by (simp add: frame_step_refl)
next
  case (Cons jvm_frame frames)
  let ?acc = "if lineno jvm_frame = kNativeFrameLineNum env
      then AddNativeInfo env jvm_frame s (st, stack_state)
      else AddJavaInfo env jvm_frame s (st, stack_state)"
  have 1: "frame_step s st (fst ?acc)"
    using Cons.prems by (simp add: AddNativeInfo_frame_step AddJavaInfo_frame_step)
  then have "builder_inv (fst ?acc)"
    by (simp add: frame_step_def)
  then have "frame_step s (fst ?acc) (fst (AddFrames env s frames (fst ?acc, snd ?acc)))"
    by (rule Cons.IH)
  with 1 have "frame_step s st (fst (AddFrames env s frames (fst ?acc, snd ?acc)))"
    by (rule frame_step_trans)
  then show ?case
    by simp
qed

lemma AddFrames_append:
  "AddFrames env s (xs @ ys) acc = AddFrames env s ys (AddFrames env s xs acc)"
  by (induction xs arbitrary: acc) simp_all

subsection \<open>Adding a trace\<close>

lemma UpdateSampleValues_eq:
  assumes "length (Sample_value (sample st ! s)) = 2"
  shows "UpdateSampleValues st s count size_v =
     st\<lparr>sample := (sample st)[s := (sample st ! s)
        \<lparr>Sample_value := [Sample_value (sample st ! s) ! 0 + scast count,
                           Sample_value (sample st ! s) ! 1 + scast size_v]\<rparr>]\<rparr>"
proof -
  from assms obtain v0 v1 where "Sample_value (sample st ! s) = [v0, v1]"
    by (cases "Sample_value (sample st ! s)" rule: list.exhaust)
      (auto simp: length_Suc_conv)
  then show ?thesis
    by (simp add: UpdateSampleValues_def set_value_def kCount_def kMetric_def Let_def)
qed

lemma AddTrace_found:
  assumes "builder_inv st" and "traces st (trace tr) = Some s"
  shows "AddTrace env st tr count =
     st\<lparr>sample := (sample st)[s := (sample st ! s)
        \<lparr>Sample_value := [Sample_value (sample st ! s) ! 0 + scast count,
                           Sample_value (sample st ! s) ! 1 + scast (metric_value tr)]\<rparr>]\<rparr>"
proof -
  from assms have "length (Sample_value (sample st ! s)) = 2"
    by (simp add: builder_inv_def)
  then show ?thesis
    using assms(2) by (simp add: AddTrace_def SampleFor_def UpdateSampleValues_eq)
qed

text \<open>The state of a new trace's sample when the loop over its frames begins.\<close>

definition new_trace_state ::
  "'b ProfileProtoBuilder \<Rightarrow> ProfileStackTrace \<Rightarrow> jint \<Rightarrow> 'b ProfileProtoBuilder" where
  "new_trace_state st tr count =
     st\<lparr>traces := (traces st)(trace tr \<mapsto> length (sample st)),
        sample := sample st @
          [\<lparr>Sample_location_id = [], Sample_value = [scast count, scast (metric_value tr)]\<rparr>]\<rparr>"

lemma AddTrace_new:
  assumes "traces st (trace tr) = None"
  shows "AddTrace env st tr count =
     fst (AddFrames env (length (sample st)) (drop (SkipTopNativeFrames env (trace tr)) (trace tr))
       (new_trace_state st tr count, StackState_new))"
  using assms
  by (simp add: AddTrace_def SampleFor_def add_sample_def TraceSamples_Add_def
      InitSampleValues_def new_trace_state_def Let_def)

lemma builder_inv_new_trace_state:
  assumes "builder_inv st"
  shows "builder_inv (new_trace_state st tr count)"
proof -
  let ?smp = "\<lparr>Sample_location_id = [], Sample_value = [scast count, scast (metric_value tr)]\<rparr>"
  have "s < length (sample st) + 1 \<and> length (Sample_value ((sample st @ [?smp]) ! s)) = 2"
    if "((traces st)(trace tr \<mapsto> length (sample st))) t = Some s" for t s
  proof (cases "t = trace tr")
    case True
    with that have "s = length (sample st)" by simp
    then show ?thesis by (simp add: nth_append)
  next
    case False
    with that have "traces st t = Some s" by simp
    with assms have "s < length (sample st)" "length (Sample_value (sample st ! s)) = 2"
      unfolding builder_inv_def by blast+
    then show ?thesis
      by (simp add: nth_append)
  qed
  with assms show ?thesis
    by (simp add: builder_inv_def new_trace_state_def)
qed

lemma AddTrace_new_props:
  assumes inv: "builder_inv st" and new: "traces st (trace tr) = None"
  shows "builder_inv (AddTrace env st tr count)"
    and "locations st \<subseteq>\<^sub>m locations (AddTrace env st tr count)"
    and "traces (AddTrace env st tr count) = (traces st)(trace tr \<mapsto> length (sample st))"
    and "length (sample (AddTrace env st tr count)) = length (sample st) + 1"
    and "Sample_value (sample (AddTrace env st tr count) ! length (sample st)) =
           [scast count, scast (metric_value tr)]"
    and "\<forall>i. i < length (sample st) \<longrightarrow> sample (AddTrace env st tr count) ! i = sample st ! i"
proof -
  let ?st0 = "new_trace_state st tr count"
  have "builder_inv ?st0"
    using inv by (rule builder_inv_new_trace_state)
  then have "frame_step (length (sample st)) ?st0 (AddTrace env st tr count)"
    unfolding AddTrace_new [OF new] by (rule AddFrames_frame_step)
  then have f: "builder_inv (AddTrace env st tr count)"
      "locations ?st0 \<subseteq>\<^sub>m locations (AddTrace env st tr count)"
      "traces (AddTrace env st tr count) = traces ?st0"
      "length (sample (AddTrace env st tr count)) = length (sample ?st0)"
      "\<forall>i. Sample_value (sample (AddTrace env st tr count) ! i) = Sample_value (sample ?st0 ! i)"
      "\<forall>i. i \<noteq> length (sample st) \<longrightarrow> sample (AddTrace env st tr count) ! i = sample ?st0 ! i"
    unfolding frame_step_def by blast+
  from f(1) show "builder_inv (AddTrace env st tr count)" .
  from f(2) show "locations st \<subseteq>\<^sub>m locations (AddTrace env st tr count)"
    by (simp add: new_trace_state_def)
  from f(3) show "traces (AddTrace env st tr count) = (traces st)(trace tr \<mapsto> length (sample st))"
    by (simp add: new_trace_state_def)
  from f(4) show "length (sample (AddTrace env st tr count)) = length (sample st) + 1"
    by (simp add: new_trace_state_def)
  from f(5) show "Sample_value (sample (AddTrace env st tr count) ! length (sample st)) =
           [scast count, scast (metric_value tr)]"
    by (simp add: new_trace_state_def)
  from f(6) show "\<forall>i. i < length (sample st) \<longrightarrow> sample (AddTrace env st tr count) ! i = sample st ! i"
    by (simp add: new_trace_state_def nth_append)
qed

lemma AddTrace_found_props:
  assumes inv: "builder_inv st" and found: "traces st (trace tr) = Some s"
  shows "builder_inv (AddTrace env st tr count)"
    and "locations (AddTrace env st tr count) = locations st"
    and "traces (AddTrace env st tr count) = traces st"
    and "location (AddTrace env st tr count) = location st"
proof -
  note e = AddTrace_found [OF inv found, of env count]
  have "length (Sample_value (((sample st)[s := (sample st ! s)
        \<lparr>Sample_value := [Sample_value (sample st ! s) ! 0 + scast count,
                           Sample_value (sample st ! s) ! 1 + scast (metric_value tr)]\<rparr>]) ! i)) =
      length (Sample_value (sample st ! i))" if "traces st t = Some i" for t i
  proof -
    from inv that have "i < length (sample st)" "length (Sample_value (sample st ! i)) = 2"
      unfolding builder_inv_def by blast+
    then show ?thesis
      by (cases "i = s") simp_all
  qed
  with inv show "builder_inv (AddTrace env st tr count)"
    unfolding e builder_inv_def by simp
  show "locations (AddTrace env st tr count) = locations st"
    and "traces (AddTrace env st tr count) = traces st"
    and "location (AddTrace env st tr count) = location st"
    by (simp_all add: e)
qed

lemma AddTrace_inv:
  assumes "builder_inv st"
  shows "builder_inv (AddTrace env st tr count)"
    and "locations st \<subseteq>\<^sub>m locations (AddTrace env st tr count)"
    and "\<exists>s. traces (AddTrace env st tr count) (trace tr) = Some s"
proof -
  have "builder_inv (AddTrace env st tr count) \<and>
      locations st \<subseteq>\<^sub>m locations (AddTrace env st tr count) \<and>
      (\<exists>s. traces (AddTrace env st tr count) (trace tr) = Some s)"
  proof (cases "traces st (trace tr)")
    case None
    from AddTrace_new_props(1-3) [OF assms None, of env count] show ?thesis
      by simp
  next
    case (Some s)
    from AddTrace_found_props(1-3) [OF assms Some, of env count] Some show ?thesis
      by simp
  qed
  then show "builder_inv (AddTrace env st tr count)"
    and "locations st \<subseteq>\<^sub>m locations (AddTrace env st tr count)"
    and "\<exists>s. traces (AddTrace env st tr count) (trace tr) = Some s"
    by blast+
qed



subsection \<open>Location ids over the life of a builder\<close>

text \<open>
  The calls that change a builder: \<^verbatim>\<open>AddTrace\<close> (which \<^verbatim>\<open>AddTraces\<close> makes for each
  trace of a batch), \<^verbatim>\<open>AddArtificialTrace\<close>, and \<^verbatim>\<open>LocationFor\<close> on its
  \<^verbatim>\<open>LocationBuilder\<close>.
\<close>

datatype builder_call =
  Call_AddTrace ProfileStackTrace jint
| Call_AddArtificialTrace string jint jint
| Call_LocationFor string string string jint

fun run_call :: "'b Env \<Rightarrow> 'b ProfileProtoBuilder \<Rightarrow> builder_call \<Rightarrow> 'b ProfileProtoBuilder" where
  "run_call env st (Call_AddTrace tr count) = AddTrace env st tr count"
| "run_call env st (Call_AddArtificialTrace name count sampling_rate) =
     AddArtificialTrace env st name count sampling_rate"
| "run_call env st (Call_LocationFor cname fname file lnum) =
     snd (LocationFor env st cname fname file lnum)"

lemma run_call_inv:
  assumes "builder_inv st"
  shows "builder_inv (run_call env st call) \<and> locations st \<subseteq>\<^sub>m locations (run_call env st call)"
proof (cases call)
  case (Call_AddTrace tr count)
  with AddTrace_inv(1,2) [OF assms, of env tr count] show ?thesis
    by simp
next
  case (Call_AddArtificialTrace name count sampling_rate)
  with AddArtificialTrace_inv [OF assms, of env name count sampling_rate] show ?thesis
    by simp
next
  case (Call_LocationFor cname fname fl lnum)
  obtain l st' where r: "LocationFor env st cname fname fl lnum = (l, st')"
    by (cases "LocationFor env st cname fname fl lnum")
  from LocationFor_props(1,4) [OF assms r] Call_LocationFor r show ?thesis
    by simp
qed

lemma run_calls_inv:
  assumes "builder_inv st"
  shows "builder_inv (foldl (run_call env) st calls) \<and>
     locations st \<subseteq>\<^sub>m locations (foldl (run_call env) st calls)"
  using assms
proof (induction calls arbitrary: st)
  case Nil
  then show ?case by simp
next
  case (Cons call calls)
  from run_call_inv [OF Cons.prems, of env call]
  have 1: "builder_inv (run_call env st call)"
    and 2: "locations st \<subseteq>\<^sub>m locations (run_call env st call)"
    by simp_all
  from Cons.IH [OF 1] 2 show ?case
    by (auto intro: map_le_trans)
qed

text \<open>
  C2. Take two calls of \<^verbatim>\<open>LocationFor\<close> on one builder, with any calls on the builder in
  between. The ids of the two locations returned are equal if and only if the two keys are
  equal by \<^verbatim>\<open>LocationInfoEquals\<close>, that is, field by field; and the location returned
  first still has its id after the second call.
\<close>

theorem LocationFor_same_id_iff_same_key:
  assumes "builder_inv st"
    and "LocationFor env st c1 f1 n1 lnum1 = (l1, st1)"
    and "LocationFor env (foldl (run_call env) st1 calls) c2 f2 n2 lnum2 = (l2, st2)"
  shows "(Location_id (location st1 ! l1) = Location_id (location st2 ! l2) \<longleftrightarrow>
       LocationInfoEquals
         \<lparr>class_name = c1, function_name = f1, file_name = n1, line_number = lnum1\<rparr>
         \<lparr>class_name = c2, function_name = f2, file_name = n2, line_number = lnum2\<rparr>) \<and>
     Location_id (location st2 ! l1) = Location_id (location st1 ! l1)"
proof -
  let ?k1 = "\<lparr>class_name = c1, function_name = f1, file_name = n1, line_number = lnum1\<rparr>"
  let ?k2 = "\<lparr>class_name = c2, function_name = f2, file_name = n2, line_number = lnum2\<rparr>"
  let ?mid = "foldl (run_call env) st1 calls"
  note p1 = LocationFor_props [OF assms(1,2)]
  from run_calls_inv [OF p1(1), of env calls]
  have invm: "builder_inv ?mid" and sub: "locations st1 \<subseteq>\<^sub>m locations ?mid"
    by simp_all
  note p2 = LocationFor_props [OF invm assms(3)]
  from p1(2) sub have "locations ?mid ?k1 = Some l1"
    by (auto simp: map_le_def dom_def)
  with p2(4) have k1: "locations st2 ?k1 = Some l1"
    by (auto simp: map_le_def dom_def)
  have id1: "Location_id (location st1 ! l1) = l1 + 1"
    using p1(1,2) by (rule builder_inv_id)
  have id2: "Location_id (location st2 ! l2) = l2 + 1"
    using p2(1,2) by (rule builder_inv_id)
  have id1': "Location_id (location st2 ! l1) = l1 + 1"
    using p2(1) k1 by (rule builder_inv_id)
  have "l1 = l2 \<longleftrightarrow> ?k1 = ?k2"
  proof
    assume "l1 = l2"
    with k1 p2(2) p2(1) show "?k1 = ?k2"
      unfolding builder_inv_def by blast
  next
    assume "?k1 = ?k2"
    with k1 p2(2) show "l1 = l2"
      by simp
  qed
  with id1 id2 id1' show ?thesis
    by (simp add: LocationInfoEquals_iff)
qed

theorem LocationFor_same_id_iff_same_key_witness:
  "builder_inv (new_builder ()) \<and>
   Location_id (location (snd (LocationFor example_env (new_builder ()) ''A'' ''A.f()'' ''A.java'' 1)) !
       fst (LocationFor example_env (new_builder ()) ''A'' ''A.f()'' ''A.java'' 1)) =
   Location_id (location (snd (LocationFor example_env
         (foldl (run_call example_env)
            (snd (LocationFor example_env (new_builder ()) ''A'' ''A.f()'' ''A.java'' 1))
            [Call_AddArtificialTrace ''lost'' 1 1])
         ''A'' ''A.f()'' ''A.java'' 1)) !
       fst (LocationFor example_env
         (foldl (run_call example_env)
            (snd (LocationFor example_env (new_builder ()) ''A'' ''A.f()'' ''A.java'' 1))
            [Call_AddArtificialTrace ''lost'' 1 1])
         ''A'' ''A.f()'' ''A.java'' 1)) \<and>
   Location_id (location (snd (LocationFor example_env (new_builder ()) ''A'' ''A.f()'' ''A.java'' 1)) !
       fst (LocationFor example_env (new_builder ()) ''A'' ''A.f()'' ''A.java'' 1)) \<noteq>
   Location_id (location (snd (LocationFor example_env
         (foldl (run_call example_env)
            (snd (LocationFor example_env (new_builder ()) ''A'' ''A.f()'' ''A.java'' 1))
            [Call_AddArtificialTrace ''lost'' 1 1])
         ''A'' ''A.f()'' ''A.java'' 2)) !
       fst (LocationFor example_env
         (foldl (run_call example_env)
            (snd (LocationFor example_env (new_builder ()) ''A'' ''A.f()'' ''A.java'' 1))
            [Call_AddArtificialTrace ''lost'' 1 1])
         ''A'' ''A.f()'' ''A.java'' 2))"
proof -
  let ?r1 = "LocationFor example_env (new_builder ()) ''A'' ''A.f()'' ''A.java'' 1"
  let ?mid = "foldl (run_call example_env) (snd ?r1) [Call_AddArtificialTrace ''lost'' 1 1]"
  let ?r2 = "LocationFor example_env ?mid ''A'' ''A.f()'' ''A.java'' 1"
  let ?r3 = "LocationFor example_env ?mid ''A'' ''A.f()'' ''A.java'' 2"
  have inv: "builder_inv (new_builder ())"
    by (rule builder_inv_new)
  have e1: "?r1 = (fst ?r1, snd ?r1)" and e2: "?r2 = (fst ?r2, snd ?r2)"
    and e3: "?r3 = (fst ?r3, snd ?r3)"
    by simp_all
  have a: "Location_id (location (snd ?r1) ! fst ?r1) = Location_id (location (snd ?r2) ! fst ?r2)"
    using LocationFor_same_id_iff_same_key [OF inv e1 e2]
    by (simp add: LocationInfoEquals_def)
  have b: "Location_id (location (snd ?r1) ! fst ?r1) \<noteq> Location_id (location (snd ?r3) ! fst ?r3)"
    using LocationFor_same_id_iff_same_key [OF inv e1 e3]
    by (simp add: LocationInfoEquals_def)
  from inv a b show ?thesis
    by (intro conjI)
qed

subsection \<open>Consecutive native frames\<close>

lemma snd_AddNativeInfo:
  "snd (AddNativeInfo env jvm_frame s acc) = NativeFrame (GetFunctionName env jvm_frame) (snd acc)"
  by (cases acc) (simp add: AddNativeInfo_def Let_def split_beta)

lemma snd_AddJavaInfo:
  "snd (AddJavaInfo env jvm_frame s acc) = JavaFrame (snd acc)"
  by (cases acc) (simp add: AddJavaInfo_def Let_def split_beta)

lemma run_state_NativeFrame: "run_state (NativeFrame name ss) = InNativeRun name"
  by (simp add: NativeFrame_def)

lemma SkipFrame_NativeFrame:
  "SkipFrame (NativeFrame name ss) \<longleftrightarrow> run_state ss = InNativeRun name"
  by (simp add: SkipFrame_def NativeFrame_def)

lemma run_state_AddFrames:
  "run_state (snd (AddFrames env s frames (st, StackState_new))) =
     (if frames = [] then Initial
      else if lineno (last frames) = kNativeFrameLineNum env
        then InNativeRun (GetFunctionName env (last frames))
      else InJavaRun)"
proof (cases frames rule: rev_cases)
  case Nil
  then show ?thesis
    by (simp add: StackState_new_def)
next
  case (snoc xs x)
  then show ?thesis
    by (simp add: AddFrames_append snd_AddNativeInfo snd_AddJavaInfo run_state_NativeFrame
        JavaFrame_def)
qed

lemma AddNativeInfo_skip:
  assumes "builder_inv st" and "run_state ss = InNativeRun (GetFunctionName env jvm_frame)"
  shows "sample (fst (AddNativeInfo env jvm_frame s (st, ss))) = sample st"
proof -
  obtain l st1 where r: "GetLocation env jvm_frame st = (l, st1)"
    by (cases "GetLocation env jvm_frame st")
  then have "sample st1 = sample st"
    using assms(1) unfolding GetLocation_def Let_def by (rule LocationFor_props(5) [rotated])
  with assms(2) show ?thesis
    by (simp add: AddNativeInfo_eq [OF r] SkipFrame_NativeFrame)
qed

lemma AddNativeInfo_keep:
  assumes "builder_inv st" and "s < length (sample st)"
    and "run_state ss \<noteq> InNativeRun (GetFunctionName env jvm_frame)"
  shows "\<exists>l. locations (fst (AddNativeInfo env jvm_frame s (st, ss)))
        (NativeLocationInfo env jvm_frame) = Some l \<and>
      l < length (location (fst (AddNativeInfo env jvm_frame s (st, ss)))) \<and>
      Sample_location_id (sample (fst (AddNativeInfo env jvm_frame s (st, ss))) ! s) =
        Sample_location_id (sample st ! s) @
          [Location_id (location (fst (AddNativeInfo env jvm_frame s (st, ss))) ! l)] \<and>
      Location_address (location (fst (AddNativeInfo env jvm_frame s (st, ss))) ! l) =
        method_id jvm_frame"
proof -
  let ?info = "NativeLocationInfo env jvm_frame"
  obtain l st1 where r: "GetLocation env jvm_frame st = (l, st1)"
    by (cases "GetLocation env jvm_frame st")
  then have r': "LocationFor env st (class_name ?info) (function_name ?info) (file_name ?info)
      (line_number ?info) = (l, st1)"
    by (simp add: GetLocation_def Let_def)
  note p = LocationFor_props [OF assms(1) r']
  have "\<lparr>class_name = class_name ?info, function_name = function_name ?info,
      file_name = file_name ?info, line_number = line_number ?info\<rparr> = ?info"
    by (cases ?info) simp
  with p(2) have k: "locations st1 ?info = Some l"
    by simp
  let ?st2 = "set_address st1 l (method_id jvm_frame)"
  let ?st3 = "add_location_id ?st2 s (Location_id (location ?st2 ! l))"
  from assms(3) have e: "fst (AddNativeInfo env jvm_frame s (st, ss)) = ?st3"
    by (simp add: AddNativeInfo_eq [OF r] SkipFrame_NativeFrame)
  have "locations ?st3 ?info = Some l"
    using k by (simp add: add_location_id_def set_address_def)
  moreover have "l < length (location ?st3)"
    using p(3) by (simp add: add_location_id_def set_address_def)
  moreover have "Sample_location_id (sample ?st3 ! s) =
      Sample_location_id (sample st ! s) @ [Location_id (location ?st3 ! l)]"
    using assms(2) p(5) by (simp add: add_location_id_def set_address_def)
  moreover have "Location_address (location ?st3 ! l) = method_id jvm_frame"
    using p(3) by (simp add: add_location_id_def set_address_def)
  ultimately show ?thesis
    unfolding e by blast
qed

lemma AddFrames_snoc:
  "AddFrames env s (frames @ [jvm_frame]) acc =
     (if lineno jvm_frame = kNativeFrameLineNum env
      then AddNativeInfo env jvm_frame s (AddFrames env s frames acc)
      else AddJavaInfo env jvm_frame s (AddFrames env s frames acc))"
  by (simp add: AddFrames_append)

lemma AddFrames_keeps:
  assumes "builder_inv st" and "s < length (sample st)"
  shows "builder_inv (fst (AddFrames env s frames (st, ss)))"
    and "s < length (sample (fst (AddFrames env s frames (st, ss))))"
  using AddFrames_frame_step [OF assms(1), of s env frames ss] assms(2)
  by (simp_all add: frame_step_def)

lemma native_run_collapses:
  assumes "builder_inv st" and "s < length (sample st)"
    and "lineno jvm_frame = kNativeFrameLineNum env"
    and "\<forall>g \<in> set run. lineno g = kNativeFrameLineNum env \<and>
           GetFunctionName env g = GetFunctionName env jvm_frame"
  shows "Sample_location_id
       (sample (fst (AddFrames env s (frames @ jvm_frame # run) (st, StackState_new))) ! s) =
     Sample_location_id
       (sample (fst (AddFrames env s (frames @ [jvm_frame]) (st, StackState_new))) ! s)"
  using assms(4)
proof (induction run rule: rev_induct)
  case Nil
  show ?case by simp
next
  case (snoc g run)
  let ?pre = "frames @ jvm_frame # run"
  let ?acc = "AddFrames env s ?pre (st, StackState_new)"
  from snoc.prems have g: "lineno g = kNativeFrameLineNum env"
      "GetFunctionName env g = GetFunctionName env jvm_frame"
    and rest: "\<forall>g \<in> set run. lineno g = kNativeFrameLineNum env \<and>
           GetFunctionName env g = GetFunctionName env jvm_frame"
    by simp_all
  have l: "lineno (last ?pre) = kNativeFrameLineNum env \<and>
      GetFunctionName env (last ?pre) = GetFunctionName env jvm_frame"
    using rest assms(3) by (cases run rule: rev_cases) simp_all
  have "run_state (snd ?acc) = InNativeRun (GetFunctionName env g)"
    using l g(2) by (simp add: run_state_AddFrames)
  moreover have "builder_inv (fst ?acc)"
    using assms(1,2) by (rule AddFrames_keeps)
  ultimately have "sample (fst (AddNativeInfo env g s (fst ?acc, snd ?acc))) = sample (fst ?acc)"
    by (rule AddNativeInfo_skip [rotated])
  moreover have "AddFrames env s (frames @ jvm_frame # run @ [g]) (st, StackState_new) =
      AddNativeInfo env g s ?acc"
    using g(1) AddFrames_snoc [of env s ?pre g "(st, StackState_new)"] by simp
  ultimately show ?case
    using snoc.IH [OF rest] by simp
qed

text \<open>
  C9. In the walk over the frames of a trace, let a native frame follow the frames
  processed so far. If the frame just before it is native with the same function name, the
  sample's location ids stay as they are. Otherwise (it is the first frame processed, or the
  frame before it is managed, or native under another name) the id of the frame's location
  is appended to them and that location's address is the frame's function pointer. A run of
  further native frames of the same name after a native frame adds nothing, so the run
  leaves one location id.
\<close>

theorem consecutive_native_frames:
  assumes "builder_inv st" and "s < length (sample st)"
    and "lineno jvm_frame = kNativeFrameLineNum env"
  shows "(frames \<noteq> [] \<and> lineno (last frames) = kNativeFrameLineNum env \<and>
        GetFunctionName env (last frames) = GetFunctionName env jvm_frame \<longrightarrow>
        Sample_location_id
          (sample (fst (AddFrames env s (frames @ [jvm_frame]) (st, StackState_new))) ! s) =
        Sample_location_id (sample (fst (AddFrames env s frames (st, StackState_new))) ! s)) \<and>
     (frames = [] \<or> lineno (last frames) \<noteq> kNativeFrameLineNum env \<or>
        GetFunctionName env (last frames) \<noteq> GetFunctionName env jvm_frame \<longrightarrow>
        (\<exists>l. locations (fst (AddFrames env s (frames @ [jvm_frame]) (st, StackState_new)))
               (NativeLocationInfo env jvm_frame) = Some l \<and>
             l < length (location (fst (AddFrames env s (frames @ [jvm_frame]) (st, StackState_new)))) \<and>
             Sample_location_id
               (sample (fst (AddFrames env s (frames @ [jvm_frame]) (st, StackState_new))) ! s) =
             Sample_location_id (sample (fst (AddFrames env s frames (st, StackState_new))) ! s) @
               [Location_id
                  (location (fst (AddFrames env s (frames @ [jvm_frame]) (st, StackState_new))) ! l)] \<and>
             Location_address
               (location (fst (AddFrames env s (frames @ [jvm_frame]) (st, StackState_new))) ! l) =
             method_id jvm_frame)) \<and>
     ((\<forall>g \<in> set run. lineno g = kNativeFrameLineNum env \<and>
           GetFunctionName env g = GetFunctionName env jvm_frame) \<longrightarrow>
        Sample_location_id
          (sample (fst (AddFrames env s (frames @ jvm_frame # run) (st, StackState_new))) ! s) =
        Sample_location_id
          (sample (fst (AddFrames env s (frames @ [jvm_frame]) (st, StackState_new))) ! s))"
proof (intro conjI impI)
  let ?acc = "AddFrames env s frames (st, StackState_new)"
  have step: "AddFrames env s (frames @ [jvm_frame]) (st, StackState_new) =
      AddNativeInfo env jvm_frame s (fst ?acc, snd ?acc)"
    using assms(3) by (simp add: AddFrames_snoc)
  have inv: "builder_inv (fst ?acc)" and sl: "s < length (sample (fst ?acc))"
    using assms(1,2) by (rule AddFrames_keeps)+
  {
    assume "frames \<noteq> [] \<and> lineno (last frames) = kNativeFrameLineNum env \<and>
        GetFunctionName env (last frames) = GetFunctionName env jvm_frame"
    then have "run_state (snd ?acc) = InNativeRun (GetFunctionName env jvm_frame)"
      by (simp add: run_state_AddFrames)
    with inv have "sample (fst (AddNativeInfo env jvm_frame s (fst ?acc, snd ?acc))) =
        sample (fst ?acc)"
      by (rule AddNativeInfo_skip)
    then show "Sample_location_id
          (sample (fst (AddFrames env s (frames @ [jvm_frame]) (st, StackState_new))) ! s) =
        Sample_location_id (sample (fst ?acc) ! s)"
      by (simp add: step)
  }
  {
    assume "frames = [] \<or> lineno (last frames) \<noteq> kNativeFrameLineNum env \<or>
        GetFunctionName env (last frames) \<noteq> GetFunctionName env jvm_frame"
    then have "run_state (snd ?acc) \<noteq> InNativeRun (GetFunctionName env jvm_frame)"
      by (auto simp: run_state_AddFrames)
    with inv sl show "\<exists>l. locations (fst (AddFrames env s (frames @ [jvm_frame]) (st, StackState_new)))
               (NativeLocationInfo env jvm_frame) = Some l \<and>
             l < length (location (fst (AddFrames env s (frames @ [jvm_frame]) (st, StackState_new)))) \<and>
             Sample_location_id
               (sample (fst (AddFrames env s (frames @ [jvm_frame]) (st, StackState_new))) ! s) =
             Sample_location_id (sample (fst ?acc) ! s) @
               [Location_id
                  (location (fst (AddFrames env s (frames @ [jvm_frame]) (st, StackState_new))) ! l)] \<and>
             Location_address
               (location (fst (AddFrames env s (frames @ [jvm_frame]) (st, StackState_new))) ! l) =
             method_id jvm_frame"
      unfolding step by (rule AddNativeInfo_keep)
  }
  {
    assume "\<forall>g \<in> set run. lineno g = kNativeFrameLineNum env \<and>
           GetFunctionName env g = GetFunctionName env jvm_frame"
    with assms show "Sample_location_id
          (sample (fst (AddFrames env s (frames @ jvm_frame # run) (st, StackState_new))) ! s) =
        Sample_location_id
          (sample (fst (AddFrames env s (frames @ [jvm_frame]) (st, StackState_new))) ! s)"
      by (rule native_run_collapses)
  }
qed

theorem consecutive_native_frames_witness:
  "builder_inv (add_sample (new_builder ())) \<and>
   0 < length (sample (add_sample (new_builder ()))) \<and>
   Sample_location_id
     (sample (fst (AddFrames example_env 0
        ([\<lparr>lineno = - 99, method_id = 4\<rparr>] @ [\<lparr>lineno = - 99, method_id = 8\<rparr>])
        (add_sample (new_builder ()), StackState_new))) ! 0) =
   Sample_location_id
     (sample (fst (AddFrames example_env 0 [\<lparr>lineno = - 99, method_id = 4\<rparr>]
        (add_sample (new_builder ()), StackState_new))) ! 0) \<and>
   (\<exists>l. Sample_location_id
          (sample (fst (AddFrames example_env 0
             ([\<lparr>lineno = - 99, method_id = 4\<rparr>] @ [\<lparr>lineno = - 99, method_id = 7\<rparr>])
             (add_sample (new_builder ()), StackState_new))) ! 0) =
        Sample_location_id
          (sample (fst (AddFrames example_env 0 [\<lparr>lineno = - 99, method_id = 4\<rparr>]
             (add_sample (new_builder ()), StackState_new))) ! 0) @
        [Location_id
           (location (fst (AddFrames example_env 0
              ([\<lparr>lineno = - 99, method_id = 4\<rparr>] @ [\<lparr>lineno = - 99, method_id = 7\<rparr>])
              (add_sample (new_builder ()), StackState_new))) ! l)] \<and>
        Location_address
           (location (fst (AddFrames example_env 0
              ([\<lparr>lineno = - 99, method_id = 4\<rparr>] @ [\<lparr>lineno = - 99, method_id = 7\<rparr>])
              (add_sample (new_builder ()), StackState_new))) ! l) = 7) \<and>
   Sample_location_id
     (sample (fst (AddFrames example_env 0
        ([] @ \<lparr>lineno = - 99, method_id = 4\<rparr> #
           [\<lparr>lineno = - 99, method_id = 8\<rparr>, \<lparr>lineno = - 99, method_id = 12\<rparr>])
        (add_sample (new_builder ()), StackState_new))) ! 0) =
   Sample_location_id
     (sample (fst (AddFrames example_env 0 ([] @ [\<lparr>lineno = - 99, method_id = 4\<rparr>])
        (add_sample (new_builder ()), StackState_new))) ! 0)"
proof -
  let ?st = "add_sample (new_builder ())"
  let ?f4 = "\<lparr>lineno = - 99, method_id = 4\<rparr>"
  have inv: "builder_inv ?st"
    by (simp add: builder_inv_def add_sample_def new_builder_def)
  have sl: "0 < length (sample ?st)"
    by (simp add: add_sample_def)
  have n8: "lineno \<lparr>lineno = - 99, method_id = 8\<rparr> = kNativeFrameLineNum example_env"
    and n7: "lineno \<lparr>lineno = - 99, method_id = 7\<rparr> = kNativeFrameLineNum example_env"
    and n4: "lineno ?f4 = kNativeFrameLineNum example_env"
    by (simp_all add: example_env_def)
  have a: "Sample_location_id
     (sample (fst (AddFrames example_env 0 ([?f4] @ [\<lparr>lineno = - 99, method_id = 8\<rparr>])
        (?st, StackState_new))) ! 0) =
   Sample_location_id
     (sample (fst (AddFrames example_env 0 [?f4] (?st, StackState_new))) ! 0)"
    by (rule consecutive_native_frames [OF inv sl n8, of "[?f4]", THEN conjunct1, rule_format])
      (simp add: example_env_def)
  have b: "\<exists>l. Sample_location_id
          (sample (fst (AddFrames example_env 0 ([?f4] @ [\<lparr>lineno = - 99, method_id = 7\<rparr>])
             (?st, StackState_new))) ! 0) =
        Sample_location_id
          (sample (fst (AddFrames example_env 0 [?f4] (?st, StackState_new))) ! 0) @
        [Location_id
           (location (fst (AddFrames example_env 0
              ([?f4] @ [\<lparr>lineno = - 99, method_id = 7\<rparr>]) (?st, StackState_new))) ! l)] \<and>
        Location_address
           (location (fst (AddFrames example_env 0
              ([?f4] @ [\<lparr>lineno = - 99, method_id = 7\<rparr>]) (?st, StackState_new))) ! l) = 7"
  proof -
    have "[?f4] = [] \<or> lineno (last [?f4]) \<noteq> kNativeFrameLineNum example_env \<or>
        GetFunctionName example_env (last [?f4]) \<noteq>
          GetFunctionName example_env \<lparr>lineno = - 99, method_id = 7\<rparr>"
      by (simp add: example_env_def)
    from consecutive_native_frames [OF inv sl n7, of "[?f4]", THEN conjunct2, THEN conjunct1,
        rule_format, OF this]
    show ?thesis
      by auto
  qed
  have c: "Sample_location_id
     (sample (fst (AddFrames example_env 0
        ([] @ ?f4 # [\<lparr>lineno = - 99, method_id = 8\<rparr>, \<lparr>lineno = - 99, method_id = 12\<rparr>])
        (?st, StackState_new))) ! 0) =
   Sample_location_id
     (sample (fst (AddFrames example_env 0 ([] @ [?f4]) (?st, StackState_new))) ! 0)"
    by (rule consecutive_native_frames [OF inv sl n4, of "[]"
          "[\<lparr>lineno = - 99, method_id = 8\<rparr>, \<lparr>lineno = - 99, method_id = 12\<rparr>]",
          THEN conjunct2, THEN conjunct2, rule_format])
      (auto simp: example_env_def)
  from inv sl a b c show ?thesis
    by (intro conjI)
qed

end
